theory Spec2Isabelle
  imports Main
begin

section \<open>Machine arithmetic of \<^verbatim>\<open>size_t\<close> and \<^verbatim>\<open>unsigned long\<close>\<close>

text \<open>
  \<^verbatim>\<open>size_t\<close> and \<^verbatim>\<open>unsigned long\<close> are taken 64 bits wide (LP64). Their values are
  natural numbers below \<open>SIZE_MOD\<close>; every C operation that can wrap is written with
  its reduction modulo \<open>SIZE_MOD\<close>.
\<close>

definition SIZE_MOD :: nat where
  "SIZE_MOD = 2 ^ 64"

definition size_mul :: "nat \<Rightarrow> nat \<Rightarrow> nat" where
  "size_mul a b = (a * b) mod SIZE_MOD"

definition size_add :: "nat \<Rightarrow> nat \<Rightarrow> nat" where
  "size_add a b = (a + b) mod SIZE_MOD"

definition size_sub :: "nat \<Rightarrow> nat \<Rightarrow> nat" where
  "size_sub a b = (a + SIZE_MOD - b mod SIZE_MOD) mod SIZE_MOD"

text \<open>\<^verbatim>\<open>lineNo++\<close> on an \<^verbatim>\<open>unsigned long\<close>.\<close>

definition ulong_inc :: "nat \<Rightarrow> nat" where
  "ulong_inc x = (x + 1) mod 2 ^ 64"

text \<open>
  Memory faults of the C program that the model makes explicit: an array access
  outside the allocated cells, and \<^verbatim>\<open>%\<close> or \<^verbatim>\<open>/\<close> by zero.
\<close>

datatype fault = DivisionByZero | OutOfBounds nat

section \<open>In-place transposition: \<^verbatim>\<open>transpose\<close>\<close>

text \<open>
  The source (ModelicaIO.c, lines 966-999):
  \<^verbatim>\<open>
  static void transpose(double* table, size_t nRow, size_t nCol) {
    size_t i;
    for (i = 1; i < nRow*nCol - 1; i++) {
        size_t x = nRow*(i % nCol) + i/nCol; /* predecessor of i in the cycle */
        /* Continue if cycle is of length one or predecessor already was visited */
        if (x <= i) { continue; }
        /* Continue if cycle already was visited */
        while (x > i) { x = nRow*(x % nCol) + x/nCol; }
        if (x < i) { continue; }
        {
            double tmp = table[i];
            size_t s = i; /* start index in the cycle */
            x = nRow*(i % nCol) + i/nCol; /* predecessor of i in the cycle */
            while (x != i) {
                table[s] = table[x];
                s = x;
                x = nRow*(x % nCol) + x/nCol;
            }
            table[s] = tmp;
        }
    }
  }
  \<close>
  The buffer is a list whose length is the number of allocated cells. A read or a
  write at an index outside the list is the fault \<open>OutOfBounds\<close>, and a division by
  \<open>nCol = 0\<close> is the fault \<open>DivisionByZero\<close>. The two \<^verbatim>\<open>while\<close> loops may run forever for
  arbitrary arguments, so they are partial functions in the option monad: \<open>None\<close> is a
  loop that never exits.
\<close>

text \<open>
  The cycle predecessor \<^verbatim>\<open>nRow*(x % nCol) + x/nCol\<close> in \<^verbatim>\<open>size_t\<close> arithmetic. The loop
  body evaluates it only after its check of \<open>nCol \<noteq> 0\<close>.
\<close>

definition cycle_pred :: "nat \<Rightarrow> nat \<Rightarrow> nat \<Rightarrow> nat" where
  "cycle_pred nRow nCol x = size_add (size_mul nRow (x mod nCol)) (x div nCol)"

text \<open>\<^verbatim>\<open>while (x > i) { x = nRow*(x % nCol) + x/nCol; }\<close>, returning the final \<open>x\<close>.\<close>

partial_function (option) walk_back :: "nat \<Rightarrow> nat \<Rightarrow> nat \<Rightarrow> nat \<Rightarrow> nat option" where
  "walk_back nRow nCol i x =
     (if x > i then walk_back nRow nCol i (cycle_pred nRow nCol x) else Some x)"

text \<open>
  \<^verbatim>\<open>while (x != i) { table[s] = table[x]; s = x; x = nRow*(x % nCol) + x/nCol; }\<close>,
  returning the buffer and the final \<open>s\<close>.
\<close>

partial_function (option) rotate_cycle ::
  "'a list \<Rightarrow> nat \<Rightarrow> nat \<Rightarrow> nat \<Rightarrow> nat \<Rightarrow> nat \<Rightarrow> (fault + 'a list \<times> nat) option" where
  "rotate_cycle table nRow nCol i s x =
     (if x \<noteq> i then
        (if length table \<le> x then Some (Inl (OutOfBounds x))
         else if length table \<le> s then Some (Inl (OutOfBounds s))
         else rotate_cycle (table[s := table ! x]) nRow nCol i x (cycle_pred nRow nCol x))
      else Some (Inr (table, s)))"

text \<open>
  The \<^verbatim>\<open>for\<close> loop from counter \<open>i\<close> on. Its bound \<^verbatim>\<open>nRow*nCol - 1\<close> is computed in
  \<^verbatim>\<open>size_t\<close>, so it wraps to \<open>SIZE_MOD - 1\<close> when the product is 0. The counter stays
  below the bound, which is why \<^verbatim>\<open>i++\<close> cannot wrap and the loop itself terminates.
\<close>

text \<open>The counter of the \<^verbatim>\<open>for\<close> loop approaches its bound (used for termination).\<close>

lemma loop_counter_step:
  assumes "i < size_sub a (Suc 0)"
  shows "size_sub a (Suc 0) - size_add i (Suc 0) < size_sub a (Suc 0) - i"
proof -
  have "size_sub a (Suc 0) < SIZE_MOD"
    by (simp add: size_sub_def SIZE_MOD_def)
  with assms have "size_add i (Suc 0) = Suc i"
    by (simp add: size_add_def)
  with assms show ?thesis by simp
qed

function transpose_from :: "'a list \<Rightarrow> nat \<Rightarrow> nat \<Rightarrow> nat \<Rightarrow> (fault + 'a list) option" where
  "transpose_from table nRow nCol i =
     (if i < size_sub (size_mul nRow nCol) 1 then
        if nCol = 0 then Some (Inl DivisionByZero)
        else
          let x = cycle_pred nRow nCol i in
          if x \<le> i then transpose_from table nRow nCol (size_add i 1)
          else
            (case walk_back nRow nCol i x of
               None \<Rightarrow> None
             | Some x' \<Rightarrow>
                 if x' < i then transpose_from table nRow nCol (size_add i 1)
                 else if length table \<le> i then Some (Inl (OutOfBounds i))
                 else
                   (case rotate_cycle table nRow nCol i i (cycle_pred nRow nCol i) of
                      None \<Rightarrow> None
                    | Some (Inl f) \<Rightarrow> Some (Inl f)
                    | Some (Inr (table', s)) \<Rightarrow>
                        if length table' \<le> s then Some (Inl (OutOfBounds s))
                        else transpose_from (table'[s := table ! i]) nRow nCol (size_add i 1)))
      else Some (Inr table))"
  by pat_completeness auto
termination
  by (relation "measure (\<lambda>(table, nRow, nCol, i). size_sub (size_mul nRow nCol) 1 - i)")
     (simp_all add: loop_counter_step)

declare transpose_from.simps [simp del]

text \<open>
  \<^verbatim>\<open>transpose(table, nRow, nCol)\<close>: the loop starts at \<open>i = 1\<close>. The constant is named
  \<open>transpose_table\<close> because \<open>transpose\<close> is a list function of HOL.
\<close>

definition transpose_table :: "'a list \<Rightarrow> nat \<Rightarrow> nat \<Rightarrow> (fault + 'a list) option" where
  "transpose_table table nRow nCol = transpose_from table nRow nCol 1"

text \<open>
  The naive reference: cell \<open>(r, c)\<close> of an \<open>nRow\<close>-by-\<open>nCol\<close> matrix is read from its
  column-major position \<open>c * nRow + r\<close> and stored at its row-major position
  \<open>r * nCol + c\<close>.
\<close>

definition reference_transpose :: "'a list \<Rightarrow> nat \<Rightarrow> nat \<Rightarrow> 'a list" where
  "reference_transpose t nRow nCol =
     map (\<lambda>k. t ! ((k mod nCol) * nRow + k div nCol)) [0..<nRow * nCol]"

text \<open>
  Notions of the correctness proof: the inverse of the cycle predecessor, the indices
  whose cycle has been rotated when the loop counter is \<open>i\<close> (the cycle contains an
  index below \<open>i\<close>), and the loop invariant.
\<close>

definition cycle_succ :: "nat \<Rightarrow> nat \<Rightarrow> nat \<Rightarrow> nat" where
  "cycle_succ nRow nCol y = nCol * (y mod nRow) + y div nRow"

definition visited :: "nat \<Rightarrow> nat \<Rightarrow> nat \<Rightarrow> nat \<Rightarrow> bool" where
  "visited nRow nCol i j \<longleftrightarrow> (\<exists>k. (cycle_pred nRow nCol ^^ k) j < i)"

definition partly_transposed :: "'a list \<Rightarrow> nat \<Rightarrow> nat \<Rightarrow> nat \<Rightarrow> 'a list \<Rightarrow> bool" where
  "partly_transposed t0 nRow nCol i t \<longleftrightarrow>
     length t = length t0 \<and>
     (\<forall>j<length t0. t ! j = (if visited nRow nCol i j then t0 ! cycle_pred nRow nCol j else t0 ! j))"

section \<open>Token classification: \<^verbatim>\<open>IsNumber\<close>\<close>

text \<open>
  The source (ModelicaIO.c, lines 545-583):
  \<^verbatim>\<open>
  static int IsNumber(char* token) {
    int foundExponentSign = 0;
    int foundExponent = 0;
    int foundDec = 0;
    int isNumber = 1;
    int k = 0;
    if (token[0] == '-' || token[0] == '+') { k = 1; } else { k = 0; }
    while (token[k] != '\0') {
        if (token[k] >= '0' && token[k] <= '9') { k++; }
        else if (token[k] == '.' && foundDec == 0 &&
            foundExponent == 0 && foundExponentSign == 0) { foundDec = 1; k++; }
        else if ((token[k] == 'e' || token[k] == 'E') &&
            foundExponent == 0) { foundExponent = 1; k++; }
        else if ((token[k] == '-' || token[k] == '+') &&
            foundExponent == 1 && foundExponentSign == 0) { foundExponentSign = 1; k++; }
        else { isNumber = 0; break; }
    }
    return isNumber;
  }
  \<close>
  A token is the C string it points to: a \<open>string\<close> without the terminating NUL. The
  three flags are booleans, and the result \<open>True\<close> stands for 1.
\<close>

definition is_digit :: "char \<Rightarrow> bool" where
  "is_digit c \<longleftrightarrow> (48::nat) \<le> of_char c \<and> of_char c \<le> (57::nat)"

definition is_sign :: "char \<Rightarrow> bool" where
  "is_sign c \<longleftrightarrow> c = CHR ''-'' \<or> c = CHR ''+''"

definition is_exp :: "char \<Rightarrow> bool" where
  "is_exp c \<longleftrightarrow> c = CHR ''e'' \<or> c = CHR ''E''"

fun IsNumber_loop :: "bool \<Rightarrow> bool \<Rightarrow> bool \<Rightarrow> string \<Rightarrow> bool" where
  "IsNumber_loop foundExponentSign foundExponent foundDec [] = True"
| "IsNumber_loop foundExponentSign foundExponent foundDec (c # cs) =
     (if is_digit c then IsNumber_loop foundExponentSign foundExponent foundDec cs
      else if c = CHR ''.'' \<and> \<not> foundDec \<and> \<not> foundExponent \<and> \<not> foundExponentSign
        then IsNumber_loop foundExponentSign foundExponent True cs
      else if is_exp c \<and> \<not> foundExponent
        then IsNumber_loop foundExponentSign True foundDec cs
      else if is_sign c \<and> foundExponent \<and> \<not> foundExponentSign
        then IsNumber_loop True foundExponent foundDec cs
      else False)"

definition IsNumber :: "string \<Rightarrow> bool" where
  "IsNumber token =
     (case token of
        [] \<Rightarrow> IsNumber_loop False False False []
      | c # cs \<Rightarrow>
          if is_sign c then IsNumber_loop False False False cs
          else IsNumber_loop False False False token)"

text \<open>
  The specification's wording as a predicate of its own: after an optional leading
  sign, only digits, decimal points, exponent markers and signs occur; at most one
  decimal point; at most one exponent marker; at most one further sign, and every such
  sign stands immediately after the exponent marker.
\<close>

definition number_body :: "string \<Rightarrow> string" where
  "number_body token = (case token of [] \<Rightarrow> [] | c # cs \<Rightarrow> if is_sign c then cs else token)"

definition number_char :: "char \<Rightarrow> bool" where
  "number_char c \<longleftrightarrow> is_digit c \<or> c = CHR ''.'' \<or> is_exp c \<or> is_sign c"

fun signs_follow_marker :: "bool \<Rightarrow> string \<Rightarrow> bool" where
  "signs_follow_marker after_marker [] = True"
| "signs_follow_marker after_marker (c # cs) =
     ((is_sign c \<longrightarrow> after_marker) \<and> signs_follow_marker (is_exp c) cs)"

definition IsNumber_spec :: "string \<Rightarrow> bool" where
  "IsNumber_spec token \<longleftrightarrow>
     (let body = number_body token in
      list_all number_char body \<and>
      length (filter (\<lambda>c. c = CHR ''.'') body) \<le> 1 \<and>
      length (filter is_exp body) \<le> 1 \<and>
      length (filter is_sign body) \<le> 1 \<and>
      signs_follow_marker False body)"

text \<open>
  What the flags of the source enforce instead: the decimal point must come before the
  exponent marker, and the sign only has to come somewhere after it.
\<close>

definition IsNumber_amended :: "string \<Rightarrow> bool" where
  "IsNumber_amended token \<longleftrightarrow>
     (let body = number_body token in
      list_all number_char body \<and>
      length (filter (\<lambda>c. c = CHR ''.'') body) \<le> 1 \<and>
      length (filter is_exp body) \<le> 1 \<and>
      length (filter is_sign body) \<le> 1 \<and>
      list_all (\<lambda>c. \<not> is_sign c) (takeWhile (\<lambda>c. \<not> is_exp c) body) \<and>
      list_all (\<lambda>c. c \<noteq> CHR ''.'') (dropWhile (\<lambda>c. \<not> is_exp c) body))"

section \<open>The text table reader: \<^verbatim>\<open>readTxtTable\<close>\<close>

text \<open>
  The model follows the configuration of a POSIX system with glibc: \<^verbatim>\<open>strtok_r\<close> is the
  re-entrant tokenizer, and numbers are parsed by \<^verbatim>\<open>strtol_l\<close> and \<^verbatim>\<open>strtod_l\<close> in the
  \<^verbatim>\<open>"C"\<close> locale, each followed by the check \<^verbatim>\<open>*endptr != 0\<close>.

  \<^item> The file is the list of its bytes; \<open>None\<close> is a file that \<^verbatim>\<open>fopen\<close> cannot open.
  \<^item> The line buffer \<^verbatim>\<open>buf\<close> is the list of all its \<^verbatim>\<open>bufLen\<close> bytes, including the
    bytes behind the terminating NUL of the current line: the source reads them in the
    look-ahead after a complete table.
  \<^item> A \<^verbatim>\<open>char*\<close> into the buffer (\<^verbatim>\<open>token\<close>, \<^verbatim>\<open>nextToken\<close>) is an index; \<open>None\<close> is \<^verbatim>\<open>NULL\<close>.
  \<^item> \<^verbatim>\<open>ModelicaError\<close>, \<^verbatim>\<open>ModelicaFormatError\<close> and \<^verbatim>\<open>ModelicaFormatMessage\<close> append to a
    log and return, as every call site of the source is written (each is followed by
    its own \<^verbatim>\<open>return\<close> or \<^verbatim>\<open>break\<close>).
  \<^item> The output parameters \<^verbatim>\<open>*m\<close> and \<^verbatim>\<open>*n\<close> hold \<open>m0\<close> and \<open>n0\<close> before the call.
  \<^item> \<^verbatim>\<open>free\<close> and \<^verbatim>\<open>fclose\<close> are not modelled.
  \<^item> The \<^verbatim>\<open>int\<close> \<^verbatim>\<open>bufLen\<close> is the length of the buffer; \<^verbatim>\<open>readLine\<close> fails where doubling
    it overflows.
\<close>

type_synonym buffer = "char list"

definition NUL :: char where "NUL = CHR 0x00"
definition NL :: char where "NL = CHR 0x0A"
definition TAB :: char where "TAB = CHR 0x09"
definition CR :: char where "CR = CHR 0x0D"
definition DQUOTE :: char where "DQUOTE = CHR 0x22"

text \<open>
  \<^verbatim>\<open>
  #define LINE_BUFFER_LENGTH (64)
  #define DELIM_TABLE_HEADER " \t(,)\r"
  #define DELIM_TABLE_NUMBER " \t,;\r"
  \<close>
\<close>

definition LINE_BUFFER_LENGTH :: nat where "LINE_BUFFER_LENGTH = 64"

definition EOF :: int where "EOF = - 1"

definition DELIM_TABLE_HEADER :: string where
  "DELIM_TABLE_HEADER = [CHR '' '', TAB, CHR ''('', CHR '','', CHR '')'', CR]"

definition DELIM_TABLE_NUMBER :: string where
  "DELIM_TABLE_NUMBER = [CHR '' '', TAB, CHR '','', CHR '';'', CR]"

subsection \<open>Messages\<close>

text \<open>
  One constructor for each format string of \<^verbatim>\<open>readTxtTable\<close> and \<^verbatim>\<open>readLine\<close>, with the
  arguments in the order of the source; \<open>render\<close> is the formatted text. The three
  header messages (nothing, one character, two characters found) are the constructor
  \<open>HeaderExpected\<close> with the characters found.
\<close>

datatype message =
    CannotOpenFile string
  | MemoryAllocationError
  | FirstLineEndOfFile string
  | HeaderExpected string string
  | TableNotFound string string
  | EndOfFileInData string nat nat string
  | DimensionsDoNotMatch string nat nat string nat
  | ErrorInLine nat string nat nat string

datatype event = ModelicaError message | ModelicaMessage message

text \<open>\<^verbatim>\<open>%lu\<close>: the decimal digits of a number.\<close>

function show_nat :: "nat \<Rightarrow> string" where
  "show_nat n =
     (if n < 10 then [''0123456789'' ! n]
      else show_nat (n div 10) @ [''0123456789'' ! (n mod 10)])"
  by pat_completeness auto
termination
  by (relation "measure id") simp_all

declare show_nat.simps [simp del]

definition quoted :: "string \<Rightarrow> string" where
  "quoted s = [DQUOTE] @ s @ [DQUOTE]"

text \<open>\<^verbatim>\<open>\"%s(%lu,%lu)\"\<close>\<close>

definition matrix_name :: "string \<Rightarrow> nat \<Rightarrow> nat \<Rightarrow> string" where
  "matrix_name tableName nRow nCol =
     quoted (tableName @ ''('' @ show_nat nRow @ '','' @ show_nat nCol @ '')'')"

fun render :: "message \<Rightarrow> string" where
  "render (CannotOpenFile fileName) =
     ''Not possible to open file '' @ quoted fileName @ '': No such file or directory'' @ [NL]"
| "render MemoryAllocationError = ''Memory allocation error'' @ [NL]"
| "render (FirstLineEndOfFile fileName) =
     ''Error reading first line from file '' @ quoted fileName @ '': End-Of-File reached.'' @ [NL]"
| "render (HeaderExpected fileName found) =
     ''Error reading format and version information in first line of file '' @ quoted fileName @
     '': '' @ quoted ''#1'' @ '' expected'' @
     (if found = [] then ''.'' else '', but '' @ quoted found @ '' found.'') @ [NL]"
| "render (TableNotFound tableName fileName) =
     ''Table matrix '' @ quoted tableName @ '' not found on file '' @ quoted fileName @ ''.'' @ [NL]"
| "render (EndOfFileInData tableName nRow nCol fileName) =
     ''End-of-file reached when reading numeric data of matrix '' @ matrix_name tableName nRow nCol @
     '' from file '' @ quoted fileName @ [NL]"
| "render (DimensionsDoNotMatch tableName nRow nCol fileName line) =
     ''The table dimensions of matrix '' @ matrix_name tableName nRow nCol @ '' from file '' @
     quoted fileName @ '' do not match the actual table size (line '' @ show_nat line @ '').'' @ [NL]"
| "render (ErrorInLine line tableName nRow nCol fileName) =
     ''Error in line '' @ show_nat line @ '' when reading numeric data of matrix '' @
     matrix_name tableName nRow nCol @ '' from file '' @ quoted fileName @ [NL]"

subsection \<open>The environment of a call\<close>

text \<open>
  What the C library decides: the value \<^verbatim>\<open>strtod_l\<close> converts a token to, together with
  the unconverted rest of the token (\<^verbatim>\<open>endptr\<close>); whether an allocation of a number of
  bytes succeeds; and the content of freshly allocated bytes of the line buffer.
\<close>

record 'v env =
  strtod_l :: "string \<Rightarrow> 'v \<times> string"
  malloc_ok :: "nat \<Rightarrow> bool"
  uninit :: "nat \<Rightarrow> char"

text \<open>The line buffer, the rest of the stream, and the log of messages so far.\<close>

record reader =
  buf :: buffer
  fp :: string
  messages :: "event list"

text \<open>
  What the caller sees after the call: the returned pointer (\<open>None\<close> is \<^verbatim>\<open>NULL\<close>; a cell
  that was never written is \<open>None\<close>), \<^verbatim>\<open>*m\<close>, \<^verbatim>\<open>*n\<close>, and the messages.
\<close>

record 'v result =
  returned :: "'v option list option"
  m_out :: nat
  n_out :: nat
  reported :: "event list"

subsection \<open>Reading a line: \<^verbatim>\<open>readLine\<close>\<close>

text \<open>The C string that starts at index \<open>p\<close> of the buffer.\<close>

definition c_str :: "buffer \<Rightarrow> nat \<Rightarrow> string" where
  "c_str b p = takeWhile (\<lambda>c. c \<noteq> NUL) (drop p b)"

text \<open>
  \<^verbatim>\<open>fgets(s, n, fp)\<close> reads at most \<open>n - 1\<close> bytes, stops behind a newline, and stores
  them with a NUL; at the end of the stream with nothing read it returns \<^verbatim>\<open>NULL\<close>
  (\<open>None\<close>) and stores nothing. \<open>take_line\<close> is what it consumes. Both calls of the
  source write inside the buffer (\<open>off + n\<close> is \<^verbatim>\<open>bufLen\<close>).
\<close>

fun take_line :: "nat \<Rightarrow> string \<Rightarrow> string" where
  "take_line n [] = []"
| "take_line n (c # cs) =
     (if n = 0 then [] else if c = NL then [c] else c # take_line (n - 1) cs)"

definition store :: "buffer \<Rightarrow> nat \<Rightarrow> string \<Rightarrow> buffer" where
  "store b off bytes = take off b @ bytes @ drop (off + length bytes) b"

definition fgets :: "buffer \<Rightarrow> nat \<Rightarrow> nat \<Rightarrow> string \<Rightarrow> (buffer \<times> string) option" where
  "fgets b off n stream =
     (let chunk = take_line (n - 1) stream in
      if chunk = [] then None
      else Some (store b off (chunk @ [NUL]), drop (length chunk) stream))"

text \<open>\<^verbatim>\<open>strchr(buf, c)\<close>: the index of the first \<open>c\<close> of the C string at the buffer's start.\<close>

definition strchr :: "buffer \<Rightarrow> char \<Rightarrow> nat option" where
  "strchr b c =
     (let s = c_str b 0 in
      if c \<in> set s then Some (length (takeWhile (\<lambda>d. d \<noteq> c) s)) else None)"

text \<open>
  \<^verbatim>\<open>
  static int readLine(char** buf, int* bufLen, FILE* fp) {
    char* offset;
    int oldBufLen;
    if (fgets(*buf, *bufLen, fp) == NULL) { return EOF; }
    do {
        char* p;
        char* tmp;
        if ((p = strchr(*buf, '\n')) != NULL) { *p = '\0'; return 0; }
        oldBufLen = *bufLen;
        *bufLen *= 2;
        tmp = (char*)realloc(*buf, (size_t)*bufLen);
        if (tmp == NULL) {
            fclose(fp); free(*buf);
            ModelicaError("Memory allocation error\n");
            return 1;
        }
        *buf = tmp;
        offset = &((*buf)[oldBufLen - 1]);
    } while (fgets(offset, oldBufLen + 1, fp));
    return 0;
  }
  \<close>
  \<open>readLine_grow\<close> is the \<^verbatim>\<open>do\<close> loop. Each further \<^verbatim>\<open>fgets\<close> that succeeds consumes a
  byte of the stream, which is why the loop terminates.

  \<^verbatim>\<open>*bufLen\<close> is an \<^verbatim>\<open>int\<close>, and it is the length of the buffer. When the doubled length is
  above \<^verbatim>\<open>INT_MAX\<close>, \<^verbatim>\<open>*bufLen *= 2\<close> overflows. C leaves the overflow undefined; with the
  wrap-around of the usual compilers \<^verbatim>\<open>*bufLen\<close> becomes negative and \<^verbatim>\<open>(size_t)*bufLen\<close> is
  a request for at least \<open>2^64 - 2^31\<close> bytes, which no allocator grants: \<^verbatim>\<open>realloc\<close> returns
  \<^verbatim>\<open>NULL\<close>. Below that bound the C library decides whether \<^verbatim>\<open>realloc\<close> succeeds.
\<close>

definition INT_MAX :: nat where
  "INT_MAX = 2147483647"

function readLine_grow :: "'v env \<Rightarrow> reader \<Rightarrow> int \<times> reader" where
  "readLine_grow env r =
     (case strchr (buf r) NL of
        Some p \<Rightarrow> (0, r\<lparr>buf := (buf r)[p := NUL]\<rparr>)
      | None \<Rightarrow>
          let oldBufLen = length (buf r) in
          if INT_MAX < 2 * oldBufLen \<or> \<not> malloc_ok env (2 * oldBufLen)
          then (1, r\<lparr>messages := messages r @ [ModelicaError MemoryAllocationError]\<rparr>)
          else
            let b = buf r @ map (uninit env) [oldBufLen..<2 * oldBufLen] in
            (case fgets b (oldBufLen - 1) (oldBufLen + 1) (fp r) of
               None \<Rightarrow> (0, r\<lparr>buf := b\<rparr>)
             | Some (b', rest) \<Rightarrow> readLine_grow env (r\<lparr>buf := b', fp := rest\<rparr>)))"
  by pat_completeness auto
termination
proof (relation "measure (\<lambda>(env, r). length (fp r))")
  show "wf (measure (\<lambda>(env :: 'v env, r). length (fp r)))" by simp
next
  fix env :: "'v env" and r :: reader and oldBufLen b x2 b' rest
  assume "fgets b (oldBufLen - 1) (oldBufLen + 1) (fp r) = Some x2" "(b', rest) = x2"
  then have "rest = drop (length (take_line oldBufLen (fp r))) (fp r)"
    "take_line oldBufLen (fp r) \<noteq> []"
    by (auto simp: fgets_def Let_def split: if_splits)
  then have "length rest < length (fp r)"
    by (cases "fp r") (auto split: if_splits)
  then show "((env, r\<lparr>buf := b', fp := rest\<rparr>), env, r) \<in> measure (\<lambda>(env, r). length (fp r))"
    by simp
qed

declare readLine_grow.simps [simp del]

definition readLine :: "'v env \<Rightarrow> reader \<Rightarrow> int \<times> reader" where
  "readLine env r =
     (case fgets (buf r) 0 (length (buf r)) (fp r) of
        None \<Rightarrow> (EOF, r)
      | Some (b, rest) \<Rightarrow> readLine_grow env (r\<lparr>buf := b, fp := rest\<rparr>))"

text \<open>A line that was read is gone from the stream (termination of the loops over lines).\<close>

lemma fgets_consumes:
  assumes "fgets b off n stream = Some (b', rest)"
  shows "length rest < length stream"
proof -
  from assms have "rest = drop (length (take_line (n - 1) stream)) stream"
    "take_line (n - 1) stream \<noteq> []"
    by (auto simp: fgets_def Let_def split: if_splits)
  then show ?thesis
    by (cases stream) (auto split: if_splits)
qed

lemma readLine_grow_consumes:
  "readLine_grow env r = (status, r') \<Longrightarrow> length (fp r') \<le> length (fp r)"
proof (induction env r arbitrary: status r' rule: readLine_grow.induct)
  case (1 env r)
  show ?case
  proof (cases "strchr (buf r) NL")
    case (Some p)
    with "1.prems" show ?thesis
      by (subst (asm) readLine_grow.simps) auto
  next
    case None
    show ?thesis
    proof (cases "\<not> (INT_MAX < 2 * length (buf r) \<or> \<not> malloc_ok env (2 * length (buf r)))")
      case False
      with None "1.prems" show ?thesis
        by (subst (asm) readLine_grow.simps) (auto simp: Let_def)
    next
      case True
      let ?b = "buf r @ map (uninit env) [length (buf r)..<2 * length (buf r)]"
      show ?thesis
      proof (cases "fgets ?b (length (buf r) - 1) (length (buf r) + 1) (fp r)")
        case n: None
        with None True "1.prems" show ?thesis
          by (subst (asm) readLine_grow.simps) (auto simp: Let_def)
      next
        case (Some a)
        obtain b' rest where a: "a = (b', rest)" by (cases a)
        from "1.prems" None True Some a
        have "readLine_grow env (r\<lparr>buf := b', fp := rest\<rparr>) = (status, r')"
          by (subst (asm) readLine_grow.simps) (simp add: Let_def)
        from "1.IH"[OF None refl _ refl Some[unfolded a] refl this] True
        have "length (fp r') \<le> length rest" by simp
        moreover have "length rest < length (fp r)"
          using Some a fgets_consumes by blast
        ultimately show ?thesis by simp
      qed
    qed
  qed
qed

lemma readLine_consumes:
  assumes "readLine env r = (0, r')"
  shows "length (fp r') < length (fp r)"
proof (cases "fgets (buf r) 0 (length (buf r)) (fp r)")
  case None
  with assms show ?thesis by (simp add: readLine_def EOF_def)
next
  case (Some a)
  obtain b rest where a: "a = (b, rest)" by (cases a)
  with assms Some have "readLine_grow env (r\<lparr>buf := b, fp := rest\<rparr>) = (0, r')"
    by (simp add: readLine_def)
  then have "length (fp r') \<le> length rest"
    using readLine_grow_consumes by fastforce
  moreover have "length rest < length (fp r)"
    using Some a fgets_consumes by blast
  ultimately show ?thesis by simp
qed

subsection \<open>Tokens and numbers\<close>

text \<open>
  \<^verbatim>\<open>strtok_r(str, delim, &nextToken)\<close> of glibc: skip the delimiters at \<open>str\<close>; at the end of
  the string there is no token (\<^verbatim>\<open>NULL\<close>, and \<^verbatim>\<open>nextToken\<close> at the NUL); otherwise the token
  runs to the next delimiter, which is overwritten by NUL (\<^verbatim>\<open>nextToken\<close> behind it), or to
  the end of the string (\<^verbatim>\<open>nextToken\<close> at the NUL). The result is the token, the buffer
  and \<^verbatim>\<open>nextToken\<close>. A call with \<^verbatim>\<open>str == NULL\<close> is a call at the saved \<^verbatim>\<open>nextToken\<close>.
\<close>

definition strtok_r :: "buffer \<Rightarrow> nat \<Rightarrow> string \<Rightarrow> nat option \<times> buffer \<times> nat" where
  "strtok_r b str delim =
     (let s = str + length (takeWhile (\<lambda>c. c \<in> set delim) (c_str b str));
          e = s + length (takeWhile (\<lambda>c. c \<notin> set delim) (c_str b s))
      in if c_str b s = [] then (None, b, s)
         else if c_str b e = [] then (Some s, b, e)
         else (Some s, b[e := NUL], Suc e))"

text \<open>
  \<^verbatim>\<open>strtol(token, &endptr, 10)\<close> in the \<^verbatim>\<open>"C"\<close> locale: white space, an optional sign,
  decimal digits. The result is the value, clamped to the range of \<^verbatim>\<open>long\<close>, and the
  unconverted rest; without a digit nothing is converted and the rest is the whole
  token. \<open>ulong_of_long\<close> is the cast \<^verbatim>\<open>(unsigned long)\<close>.
\<close>

definition isspace :: "char \<Rightarrow> bool" where
  "isspace c \<longleftrightarrow> c = CHR '' '' \<or> c = TAB \<or> c = NL \<or> c = CHR 0x0B \<or> c = CHR 0x0C \<or> c = CR"

definition LONG_MAX :: int where "LONG_MAX = 2 ^ 63 - 1"
definition LONG_MIN :: int where "LONG_MIN = - (2 ^ 63)"

definition digit_value :: "char \<Rightarrow> int" where
  "digit_value c = int (of_char c) - 48"

definition digits_value :: "string \<Rightarrow> int" where
  "digits_value ds = foldl (\<lambda>a c. 10 * a + digit_value c) 0 ds"

definition strtol :: "string \<Rightarrow> int \<times> string" where
  "strtol nptr =
     (let s = dropWhile isspace nptr;
          negative = (s \<noteq> [] \<and> hd s = CHR ''-'');
          s1 = (if s \<noteq> [] \<and> is_sign (hd s) then tl s else s);
          digits = takeWhile is_digit s1;
          v = digits_value digits
      in if digits = [] then (0, nptr)
         else (max LONG_MIN (min LONG_MAX (if negative then - v else v)), drop (length digits) s1))"

definition ulong_of_long :: "int \<Rightarrow> nat" where
  "ulong_of_long v = nat (v mod 2 ^ 64)"

text \<open>
  \<^verbatim>\<open>
  /* Ignore leading white space */
  while (k < bufLen - 1) {
      if (buf[k] != ' ' && buf[k] != '\t') { break; }
      k++;
  }
  \<close>
  from a given \<open>k\<close>, returning the final \<open>k\<close>.
\<close>

function skip_blanks :: "buffer \<Rightarrow> nat \<Rightarrow> nat" where
  "skip_blanks b k =
     (if k < length b - 1 then
        if b ! k \<noteq> CHR '' '' \<and> b ! k \<noteq> TAB then k else skip_blanks b (Suc k)
      else k)"
  by pat_completeness auto
termination
  by (relation "measure (\<lambda>(b, k). length b - k)") auto

declare skip_blanks.simps [simp del]

subsection \<open>The numbers of one line\<close>

text \<open>
  The variables of the inner loop: \<^verbatim>\<open>buf\<close>, \<^verbatim>\<open>token\<close>, \<^verbatim>\<open>nextToken\<close>, \<^verbatim>\<open>table\<close>, \<^verbatim>\<open>i\<close>, \<^verbatim>\<open>j\<close>
  and \<^verbatim>\<open>tableReadError\<close>.
  \<^verbatim>\<open>
  while (token != NULL && i < nRow && j < nCol) {
      if (token[0] == '#') { /* Skip trailing comment line */ break; }
      table[i*nCol + j] = strtod_l(token, &endptr, loc);
      if (*endptr != 0) { tableReadError = 1; }
      if (++j == nCol) { i++; /* Increment row index */ j = 0; /* Reset column index */ }
      if (tableReadError == 0) {
          token = strtok_r(NULL, DELIM_TABLE_NUMBER, &nextToken);
          continue;
      }
      else { break; }
  }
  \<close>
  \<^verbatim>\<open>++j\<close> and \<^verbatim>\<open>i++\<close> cannot wrap (\<open>j < nCol\<close> and \<open>i < nRow\<close>). Every iteration fills a
  cell, which is why the loop terminates.
\<close>

record 'v cursor =
  cur_buf :: buffer
  cur_token :: "nat option"
  cur_next :: nat
  cur_table :: "'v option list"
  cur_i :: nat
  cur_j :: nat
  cur_error :: int

function read_tokens :: "'v env \<Rightarrow> nat \<Rightarrow> nat \<Rightarrow> 'v cursor \<Rightarrow> fault + 'v cursor" where
  "read_tokens env nRow nCol c =
     (case cur_token c of
        None \<Rightarrow> Inr c
      | Some token \<Rightarrow>
          if cur_i c < nRow \<and> cur_j c < nCol then
            if take 1 (c_str (cur_buf c) token) = ''#'' then Inr c
            else
              let idx = size_add (size_mul (cur_i c) nCol) (cur_j c) in
              if length (cur_table c) \<le> idx then Inl (OutOfBounds idx)
              else
                let (v, endptr) = strtod_l env (c_str (cur_buf c) token);
                    c1 = c\<lparr>cur_table := (cur_table c)[idx := Some v],
                            cur_error := (if endptr \<noteq> [] then 1 else cur_error c)\<rparr>;
                    c2 = (if Suc (cur_j c1) = nCol then c1\<lparr>cur_i := Suc (cur_i c1), cur_j := 0\<rparr>
                          else c1\<lparr>cur_j := Suc (cur_j c1)\<rparr>)
                in if cur_error c2 = 0 then
                     (case strtok_r (cur_buf c2) (cur_next c2) DELIM_TABLE_NUMBER of
                        (token', b', next') \<Rightarrow>
                          read_tokens env nRow nCol
                            (c2\<lparr>cur_buf := b', cur_token := token', cur_next := next'\<rparr>))
                   else Inr c2
          else Inr c)"
  by pat_completeness auto
termination
  by (relation "measures [\<lambda>(env, nRow, nCol, c). nRow - cur_i c,
                          \<lambda>(env, nRow, nCol, c). nCol - cur_j c]")
     (auto split: if_splits)

declare read_tokens.simps [simp del]

subsection \<open>Leaving the function\<close>

text \<open>
  The code behind the loop over the lines, with the function's variables as arguments
  (\<open>msgs\<close> is the log so far):
  \<^verbatim>\<open>
  if (foundTable == 0) {
      ModelicaFormatError("Table matrix \"%s\" not found on file \"%s\".\n", tableName, fileName);
      return table;
  }
  if (tableReadError == 0) { *m = (size_t)nRow; *n = (size_t)nCol; }
  else {
      free(table); table = NULL; *m = 0; *n = 0;
      if (tableReadError == EOF) {
          ModelicaFormatError("End-of-file reached when reading numeric data of matrix "
              "\"%s(%lu,%lu)\" from file \"%s\"\n", tableName, nRow, nCol, fileName);
      }
      else if (tableReadError == 2) {
          ModelicaFormatError("The table dimensions of matrix \"%s(%lu,%lu)\" from file "
              "\"%s\" do not match the actual table size (line %lu).\n",
              tableName, nRow, nCol, fileName, lineNo);
      }
      else {
          ModelicaFormatError("Error in line %lu when reading numeric data of matrix "
              "\"%s(%lu,%lu)\" from file \"%s\"\n", lineNo, tableName, nRow, nCol, fileName);
      }
  }
  return table;
  \<close>
\<close>

definition finish ::
  "string \<Rightarrow> string \<Rightarrow> nat \<Rightarrow> nat \<Rightarrow> bool \<Rightarrow> int \<Rightarrow> nat \<Rightarrow> nat \<Rightarrow> nat \<Rightarrow>
   'v option list option \<Rightarrow> event list \<Rightarrow> 'v result" where
  "finish tableName fileName m0 n0 foundTable tableReadError nRow nCol lineNo table msgs =
     (if \<not> foundTable then
        \<lparr>returned = table, m_out = m0, n_out = n0,
         reported = msgs @ [ModelicaError (TableNotFound tableName fileName)]\<rparr>
      else if tableReadError = 0 then
        \<lparr>returned = table, m_out = nRow, n_out = nCol, reported = msgs\<rparr>
      else
        \<lparr>returned = None, m_out = 0, n_out = 0,
         reported = msgs @ [ModelicaError
           (if tableReadError = EOF then EndOfFileInData tableName nRow nCol fileName
            else if tableReadError = 2 then DimensionsDoNotMatch tableName nRow nCol fileName lineNo
            else ErrorInLine lineNo tableName nRow nCol fileName)]\<rparr>)"

subsection \<open>The rows of the table\<close>

text \<open>
  The look-ahead behind a complete table. The source does not reset \<^verbatim>\<open>k\<close>: the scan for
  the first non-blank byte of each further line starts at the \<open>k\<close> that the last data
  line left, and \<^verbatim>\<open>buf[k]\<close> may lie behind the end of the line just read.
  \<^verbatim>\<open>
  unsigned long lineNoPartial = lineNo;
  int tableReadPartial = 0;
  while (readLine(&buf, &bufLen, fp) == 0) {
      lineNoPartial++;
      /* Ignore leading white space */
      while (k < bufLen - 1) {
          if (buf[k] != ' ' && buf[k] != '\t') { break; }
          k++;
      }
      if (buf[k] == '\0' || buf[k] == '#') { /* Skip empty or comment line */ continue; }
      token = strtok_r(&buf[k], DELIM_TABLE_NUMBER, &nextToken);
      if (NULL != token) {
          if (1 == IsNumber(token)) { tableReadPartial = 1; }
      }
      break;
  }
  \<close>
  The result is the reader, \<^verbatim>\<open>lineNoPartial\<close> and \<^verbatim>\<open>tableReadPartial\<close>.
\<close>

function lookahead :: "'v env \<Rightarrow> reader \<Rightarrow> nat \<Rightarrow> nat \<Rightarrow> reader \<times> nat \<times> bool" where
  "lookahead env r k lineNoPartial =
     (case readLine env r of
        (status, r1) \<Rightarrow>
          if status = 0 then
            let lineNoPartial' = ulong_inc lineNoPartial;
                k' = skip_blanks (buf r1) k
            in if buf r1 ! k' = NUL \<or> buf r1 ! k' = CHR ''#''
               then lookahead env r1 k' lineNoPartial'
               else
                 (case strtok_r (buf r1) k' DELIM_TABLE_NUMBER of
                    (token, b, next) \<Rightarrow>
                      (r1\<lparr>buf := b\<rparr>, lineNoPartial',
                       (case token of None \<Rightarrow> False | Some t \<Rightarrow> IsNumber (c_str b t))))
          else (r1, lineNoPartial, False))"
  by pat_completeness auto
termination
  by (relation "measure (\<lambda>(env, r, k, lineNoPartial). length (fp r))")
     (auto dest: readLine_consumes[OF sym])

declare lookahead.simps [simp del]

text \<open>
  The loop over the rows, up to the return of the function (every \<^verbatim>\<open>break\<close> of this
  loop is followed by the \<^verbatim>\<open>break\<close> of the loop over the lines and then by the code of
  \<open>finish\<close>):
  \<^verbatim>\<open>
  while (tableReadError == 0 && i < nRow) {
      int k = 0;
      lineNo++;
      if ((tableReadError = readLine(&buf, &bufLen, fp)) != 0) { break; }
      /* Ignore leading white space */
      while (k < bufLen - 1) { ... }
      if (buf[k] == '\0' || buf[k] == '#') { /* Skip empty or comment line */ continue; }
      token = strtok_r(&buf[k], DELIM_TABLE_NUMBER, &nextToken);
      while (token != NULL && i < nRow && j < nCol) { ... }
      /* Check for trailing non-comment character */
      if (token != NULL && token[0] != '#') {
          tableReadError = 1;
          /* Check for trailing number (on same line) */
          if (i == nRow && 1 == IsNumber(token)) { tableReadError = 2; }
          break;
      }
      /* Extra check for partial table read */
      else if (NULL == token && 0 == tableReadError && i == nRow) {
          ... look-ahead ...
          if (1 == tableReadPartial) {
              ModelicaFormatMessage("The table dimensions of matrix \"%s(%lu,%lu)\" from file "
                  "\"%s\" do not match the actual table size (line %lu).\n",
                  tableName, nRow, nCol, fileName, lineNoPartial);
          }
          break;
      }
  }
  break;
  \<close>
\<close>

function read_rows ::
  "'v env \<Rightarrow> string \<Rightarrow> string \<Rightarrow> nat \<Rightarrow> nat \<Rightarrow> nat \<Rightarrow> nat \<Rightarrow>
   reader \<Rightarrow> nat \<Rightarrow> 'v option list \<Rightarrow> nat \<Rightarrow> nat \<Rightarrow> int \<Rightarrow> fault + 'v result" where
  "read_rows env tableName fileName m0 n0 nRow nCol r lineNo table i j tableReadError =
     (if tableReadError = 0 \<and> i < nRow then
        let lineNo' = ulong_inc lineNo in
        (case readLine env r of
           (status, r1) \<Rightarrow>
             if status \<noteq> 0 then
               Inr (finish tableName fileName m0 n0 True status nRow nCol lineNo' (Some table)
                      (messages r1))
             else
               let k = skip_blanks (buf r1) 0 in
               if buf r1 ! k = NUL \<or> buf r1 ! k = CHR ''#'' then
                 read_rows env tableName fileName m0 n0 nRow nCol r1 lineNo' table i j tableReadError
               else
                 (case strtok_r (buf r1) k DELIM_TABLE_NUMBER of
                    (token, b, next) \<Rightarrow>
                      (case read_tokens env nRow nCol
                              \<lparr>cur_buf = b, cur_token = token, cur_next = next, cur_table = table,
                               cur_i = i, cur_j = j, cur_error = tableReadError\<rparr> of
                         Inl f \<Rightarrow> Inl f
                       | Inr c \<Rightarrow>
                           if cur_token c \<noteq> None \<and>
                              take 1 (c_str (cur_buf c) (the (cur_token c))) \<noteq> ''#'' then
                             Inr (finish tableName fileName m0 n0 True
                                    (if cur_i c = nRow \<and> IsNumber (c_str (cur_buf c) (the (cur_token c)))
                                     then 2 else 1)
                                    nRow nCol lineNo' (Some (cur_table c)) (messages r1))
                           else if cur_token c = None \<and> cur_error c = 0 \<and> cur_i c = nRow then
                             (case lookahead env (r1\<lparr>buf := cur_buf c\<rparr>) k lineNo' of
                                (r2, lineNoPartial, tableReadPartial) \<Rightarrow>
                                  Inr (finish tableName fileName m0 n0 True (cur_error c) nRow nCol lineNo'
                                         (Some (cur_table c))
                                         (messages r2 @
                                          (if tableReadPartial
                                           then [ModelicaMessage
                                                   (DimensionsDoNotMatch tableName nRow nCol fileName
                                                      lineNoPartial)]
                                           else []))))
                           else
                             read_rows env tableName fileName m0 n0 nRow nCol (r1\<lparr>buf := cur_buf c\<rparr>)
                               lineNo' (cur_table c) (cur_i c) (cur_j c) (cur_error c))))
      else
        Inr (finish tableName fileName m0 n0 True tableReadError nRow nCol lineNo (Some table)
               (messages r)))"
  by pat_completeness auto
termination
  by (relation "measure (\<lambda>(env, tableName, fileName, m0, n0, nRow, nCol, r, rest). length (fp r))")
     (auto dest: readLine_consumes[OF sym])

declare read_rows.simps [simp del]

subsection \<open>The table header and the loop over the lines\<close>

text \<open>
  One line of the loop over the lines, up to the block that reads the table. The
  result is the buffer, \<^verbatim>\<open>foundTable\<close>, \<^verbatim>\<open>nRow\<close>, \<^verbatim>\<open>nCol\<close>, and whether the block is
  reached (no \<^verbatim>\<open>continue\<close> was taken).
  \<^verbatim>\<open>
  /* Expected table header format: "dataType tableName(nRow,nCol)" */
  token = strtok_r(buf, DELIM_TABLE_HEADER, &nextToken);
  if (token == NULL) { continue; }
  if ((0 != strcmp(token, "double")) && (0 != strcmp(token, "float"))) { continue; }
  token = strtok_r(NULL, DELIM_TABLE_HEADER, &nextToken);
  if (token == NULL) { continue; }
  if (0 == strcmp(token, tableName)) { foundTable = 1; } else { continue; }
  token = strtok_r(NULL, DELIM_TABLE_HEADER, &nextToken);
  if (token == NULL) { continue; }
  nRow = (unsigned long)strtol_l(token, &endptr, 10, loc);
  if (*endptr != 0) { continue; }
  token = strtok_r(NULL, DELIM_TABLE_HEADER, &nextToken);
  if (token == NULL) { continue; }
  nCol = (unsigned long)strtol_l(token, &endptr, 10, loc);
  if (*endptr != 0) { continue; }
  \<close>
\<close>

record header =
  hdr_buf :: buffer
  hdr_foundTable :: bool
  hdr_nRow :: nat
  hdr_nCol :: nat
  hdr_complete :: bool

definition scan_header :: "string \<Rightarrow> buffer \<Rightarrow> bool \<Rightarrow> nat \<Rightarrow> nat \<Rightarrow> header" where
  "scan_header tableName b foundTable nRow nCol =
     (case strtok_r b 0 DELIM_TABLE_HEADER of
        (token1, b1, next1) \<Rightarrow>
          let skip1 = \<lparr>hdr_buf = b1, hdr_foundTable = foundTable, hdr_nRow = nRow, hdr_nCol = nCol,
                       hdr_complete = False\<rparr>
          in
          if token1 = None then skip1
          else if c_str b1 (the token1) \<noteq> ''double'' \<and> c_str b1 (the token1) \<noteq> ''float'' then skip1
          else
            (case strtok_r b1 next1 DELIM_TABLE_HEADER of
               (token2, b2, next2) \<Rightarrow>
                 if token2 = None then skip1\<lparr>hdr_buf := b2\<rparr>
                 else if c_str b2 (the token2) \<noteq> tableName then skip1\<lparr>hdr_buf := b2\<rparr>
                 else
                   (case strtok_r b2 next2 DELIM_TABLE_HEADER of
                      (token3, b3, next3) \<Rightarrow>
                        let skip3 = skip1\<lparr>hdr_buf := b3, hdr_foundTable := True\<rparr> in
                        if token3 = None then skip3
                        else
                          (case strtol (c_str b3 (the token3)) of
                             (v3, endptr3) \<Rightarrow>
                               let nRow' = ulong_of_long v3 in
                               if endptr3 \<noteq> [] then skip3\<lparr>hdr_nRow := nRow'\<rparr>
                               else
                                 (case strtok_r b3 next3 DELIM_TABLE_HEADER of
                                    (token4, b4, next4) \<Rightarrow>
                                      let skip4 = skip3\<lparr>hdr_buf := b4, hdr_nRow := nRow'\<rparr> in
                                      if token4 = None then skip4
                                      else
                                        (case strtol (c_str b4 (the token4)) of
                                           (v4, endptr4) \<Rightarrow>
                                             let nCol' = ulong_of_long v4 in
                                             if endptr4 \<noteq> [] then skip4\<lparr>hdr_nCol := nCol'\<rparr>
                                             else skip4\<lparr>hdr_nCol := nCol', hdr_complete := True\<rparr>))))))"

text \<open>
  The block behind a complete header:
  \<^verbatim>\<open>
  { /* foundTable == 1 */
      size_t i = 0;
      size_t j = 0;
      table = (double*)malloc(nRow*nCol*sizeof(double));
      if (table == NULL) {
          *m = 0; *n = 0;
          free(buf); fclose(fp); freelocale(loc);
          ModelicaError("Memory allocation error\n");
          return table;
      }
      /* Loop over rows and store table row-wise */
      ...
  }
  \<close>
  The size is computed in \<^verbatim>\<open>size_t\<close>; the table has as many cells as the allocated
  bytes hold.
\<close>

definition table_block ::
  "'v env \<Rightarrow> string \<Rightarrow> string \<Rightarrow> nat \<Rightarrow> nat \<Rightarrow> nat \<Rightarrow> nat \<Rightarrow> reader \<Rightarrow> nat \<Rightarrow> int \<Rightarrow>
   fault + 'v result" where
  "table_block env tableName fileName m0 n0 nRow nCol r lineNo tableReadError =
     (let bytes = size_mul (size_mul nRow nCol) 8 in
      if \<not> malloc_ok env bytes then
        Inr \<lparr>returned = None, m_out = 0, n_out = 0,
             reported = messages r @ [ModelicaError MemoryAllocationError]\<rparr>
      else
        read_rows env tableName fileName m0 n0 nRow nCol r lineNo (replicate (bytes div 8) None)
          0 0 tableReadError)"

text \<open>
  \<^verbatim>\<open>while (readLine(&buf, &bufLen, fp) == 0) { lineNo++; ... }\<close> and the code behind it.
\<close>

function scan_lines ::
  "'v env \<Rightarrow> string \<Rightarrow> string \<Rightarrow> nat \<Rightarrow> nat \<Rightarrow> reader \<Rightarrow> nat \<Rightarrow> bool \<Rightarrow> nat \<Rightarrow> nat \<Rightarrow> int \<Rightarrow>
   fault + 'v result" where
  "scan_lines env tableName fileName m0 n0 r lineNo foundTable nRow nCol tableReadError =
     (case readLine env r of
        (status, r1) \<Rightarrow>
          if status \<noteq> 0 then
            Inr (finish tableName fileName m0 n0 foundTable tableReadError nRow nCol lineNo None
                   (messages r1))
          else
            let lineNo' = ulong_inc lineNo;
                h = scan_header tableName (buf r1) foundTable nRow nCol;
                r2 = r1\<lparr>buf := hdr_buf h\<rparr>
            in if hdr_complete h then
                 table_block env tableName fileName m0 n0 (hdr_nRow h) (hdr_nCol h) r2 lineNo'
                   tableReadError
               else
                 scan_lines env tableName fileName m0 n0 r2 lineNo' (hdr_foundTable h) (hdr_nRow h)
                   (hdr_nCol h) tableReadError)"
  by pat_completeness auto
termination
  by (relation "measure (\<lambda>(env, tableName, fileName, m0, n0, r, rest). length (fp r))")
     (auto dest: readLine_consumes[OF sym])

declare scan_lines.simps [simp del]

text \<open>
  The function. \<open>file\<close> is the content of the file named \<^verbatim>\<open>fileName\<close>.
  \<^verbatim>\<open>
  fp = fopen(fileName, "r");
  if (fp == NULL) {
      ModelicaFormatError("Not possible to open file \"%s\": "
          "No such file or directory\n", fileName);
      return NULL;
  }
  buf = (char*)malloc(LINE_BUFFER_LENGTH*sizeof(char));
  if (buf == NULL) { fclose(fp); ModelicaError("Memory allocation error\n"); return NULL; }
  /* Read file header */
  if ((tableReadError = readLine(&buf, &bufLen, fp)) != 0) {
      free(buf); fclose(fp);
      if (tableReadError < 0) {
          ModelicaFormatError("Error reading first line from file \"%s\": "
              "End-Of-File reached.\n", fileName);
      }
      return NULL;
  }
  /* Expected file header format: "#1" */
  if (0 != strncmp(buf, "#1", 2)) {
      size_t len = strlen(buf);
      fclose(fp);
      if (len == 0) { ... "\"#1\" expected.\n" ... }
      else if (len == 1) { ... "\"#1\" expected, but \"%c\" found.\n" ... }
      else { ... "\"#1\" expected, but \"%c%c\" found.\n" ... }
      return NULL;
  }
  \<close>
\<close>

definition readTxtTable ::
  "'v env \<Rightarrow> string option \<Rightarrow> string \<Rightarrow> string \<Rightarrow> nat \<Rightarrow> nat \<Rightarrow> fault + 'v result" where
  "readTxtTable env file tableName fileName m0 n0 =
     (case file of
        None \<Rightarrow>
          Inr \<lparr>returned = None, m_out = m0, n_out = n0,
               reported = [ModelicaError (CannotOpenFile fileName)]\<rparr>
      | Some content \<Rightarrow>
          if \<not> malloc_ok env LINE_BUFFER_LENGTH then
            Inr \<lparr>returned = None, m_out = m0, n_out = n0,
                 reported = [ModelicaError MemoryAllocationError]\<rparr>
          else
            (case readLine env \<lparr>buf = map (uninit env) [0..<LINE_BUFFER_LENGTH], fp = content,
                                 messages = []\<rparr> of
               (tableReadError, r) \<Rightarrow>
                 if tableReadError \<noteq> 0 then
                   Inr \<lparr>returned = None, m_out = m0, n_out = n0,
                        reported = messages r @
                          (if tableReadError < 0 then [ModelicaError (FirstLineEndOfFile fileName)]
                           else [])\<rparr>
                 else if take 2 (c_str (buf r) 0) \<noteq> ''#1'' then
                   Inr \<lparr>returned = None, m_out = m0, n_out = n0,
                        reported = messages r @
                          [ModelicaError (HeaderExpected fileName (take 2 (c_str (buf r) 0)))]\<rparr>
                 else
                   scan_lines env tableName fileName m0 n0 r 1 False 0 0 tableReadError))"

subsection \<open>Notions of the theorems about the reader\<close>

text \<open>
  The first line of a stream (without its newline) and the stream behind it; a file
  given by its lines, each ended by a newline.
\<close>

definition first_line :: "string \<Rightarrow> string" where
  "first_line s = takeWhile (\<lambda>c. c \<noteq> NL) s"

definition after_line :: "string \<Rightarrow> string" where
  "after_line s = drop 1 (dropWhile (\<lambda>c. c \<noteq> NL) s)"

definition file_of_lines :: "string list \<Rightarrow> string" where
  "file_of_lines ls = concat (map (\<lambda>l. l @ [NL]) ls)"

text \<open>
  The buffer \<open>b\<close> holds the NUL-terminated string \<open>s\<close> at index \<open>p\<close>.
\<close>

definition string_at :: "buffer \<Rightarrow> nat \<Rightarrow> string \<Rightarrow> bool" where
  "string_at b p s \<longleftrightarrow> NUL \<notin> set s \<and> (\<exists>tail. drop p b = s @ NUL # tail)"

text \<open>
  The tokens of a string: the maximal runs of characters that are not delimiters. The
  lines of a stream, as successive calls of \<^verbatim>\<open>readLine\<close> see them.
\<close>

function tokens :: "string \<Rightarrow> string \<Rightarrow> string list" where
  "tokens delim s =
     (let s1 = dropWhile (\<lambda>c. c \<in> set delim) s in
      if s1 = [] then []
      else takeWhile (\<lambda>c. c \<notin> set delim) s1 #
           tokens delim (drop 1 (dropWhile (\<lambda>c. c \<notin> set delim) s1)))"
  by pat_completeness auto
termination
proof (relation "measure (\<lambda>(delim, s). length s)")
  show "wf (measure (\<lambda>(delim :: string, s :: string). length s))" by simp
next
  fix delim s :: string and s1
  assume s1: "s1 = dropWhile (\<lambda>c. c \<in> set delim) s" and ne: "s1 \<noteq> []"
  have "length (drop 1 (dropWhile (\<lambda>c. c \<notin> set delim) s1)) \<le>
      length (dropWhile (\<lambda>c. c \<notin> set delim) s1)"
    by simp
  moreover have "length s1 \<le> length s"
    unfolding s1 by (rule length_dropWhile_le)
  moreover have "length (dropWhile (\<lambda>c. c \<notin> set delim) s1) < length s1"
  proof (cases s1)
    case Nil
    with ne show ?thesis by simp
  next
    case (Cons c cs)
    then have "c \<notin> set delim"
      using s1 by (metis (mono_tags, lifting) hd_dropWhile list.sel(1) ne)
    then have "length (dropWhile (\<lambda>c. c \<notin> set delim) s1) \<le> length cs"
      using Cons by (simp add: length_dropWhile_le)
    then show ?thesis using Cons by simp
  qed
  ultimately have "length (drop 1 (dropWhile (\<lambda>c. c \<notin> set delim) s1)) < length s"
    by linarith
  then show "((delim, drop 1 (dropWhile (\<lambda>c. c \<notin> set delim) s1)), delim, s)
      \<in> measure (\<lambda>(delim, s). length s)"
    by simp
qed

declare tokens.simps [simp del]






subsection \<open>A C library for the examples\<close>

text \<open>
  \<^verbatim>\<open>strtod\<close> on decimal forms, after the C standard (7.22.1.3): white space, an optional
  sign, digits with an optional decimal point, and an optional exponent part (a marker,
  an optional sign, at least one digit). The value \<open>(d, e)\<close> stands for \<open>d * 10 ^ e\<close>.
  Infinities, NaNs and hexadecimal forms are not recognised. In \<open>sample_env\<close> every
  allocation succeeds and fresh bytes hold \<^verbatim>\<open>?\<close>.
\<close>

definition decimal_strtod :: "string \<Rightarrow> (int \<times> int) \<times> string" where
  "decimal_strtod nptr =
     (let s = dropWhile isspace nptr;
          negative = (s \<noteq> [] \<and> hd s = CHR ''-'');
          s1 = (if s \<noteq> [] \<and> is_sign (hd s) then tl s else s);
          ip = takeWhile is_digit s1;
          s2 = drop (length ip) s1;
          dot = (s2 \<noteq> [] \<and> hd s2 = CHR ''.'');
          frac = (if dot then takeWhile is_digit (tl s2) else []);
          s3 = (if dot then drop (length frac) (tl s2) else s2);
          marker = (s3 \<noteq> [] \<and> is_exp (hd s3));
          s4 = (if marker then tl s3 else s3);
          eneg = (marker \<and> s4 \<noteq> [] \<and> hd s4 = CHR ''-'');
          s5 = (if marker \<and> s4 \<noteq> [] \<and> is_sign (hd s4) then tl s4 else s4);
          ed = (if marker then takeWhile is_digit s5 else []);
          mant = digits_value (ip @ frac);
          ex = (if eneg then - digits_value ed else digits_value ed) - int (length frac)
      in if ip = [] \<and> frac = [] then ((0, 0), nptr)
         else ((if negative then - mant else mant, ex),
               if ed = [] then s3 else drop (length ed) s5))"

definition sample_env :: "(int \<times> int) env" where
  "sample_env = \<lparr>strtod_l = decimal_strtod, malloc_ok = (\<lambda>n. True), uninit = (\<lambda>n. CHR ''?'')\<rparr>"

section \<open>Correctness of the transposition\<close>

subsection \<open>The cycle predecessor is a permutation\<close>

lemma small_plus_multiple_mod: "(0::nat) < n \<Longrightarrow> d < n \<Longrightarrow> (d + m * n) mod n = d"
  by simp

lemma small_plus_multiple_div: "(0::nat) < n \<Longrightarrow> d < n \<Longrightarrow> (d + m * n) div n = m"
  by simp

lemma funpow_split:
  assumes "a \<le> b"
  shows "(f ^^ a) ((f ^^ (b - a)) x) = (f ^^ b) x"
proof -
  from assms have "b = a + (b - a)" by simp
  then have "(f ^^ b) x = (f ^^ (a + (b - a))) x" by simp
  also have "\<dots> = (f ^^ a) ((f ^^ (b - a)) x)"
    by (simp only: funpow_add comp_apply)
  finally show ?thesis by simp
qed

lemma funpow_split':
  assumes "a \<le> b"
  shows "(f ^^ (b - a)) ((f ^^ a) x) = (f ^^ b) x"
proof -
  from assms have "b = (b - a) + a" by simp
  then have "(f ^^ b) x = (f ^^ ((b - a) + a)) x" by simp
  also have "\<dots> = (f ^^ (b - a)) ((f ^^ a) x)"
    by (simp only: funpow_add comp_apply)
  finally show ?thesis by simp
qed

lemma funpow_fixed: "f x = x \<Longrightarrow> (f ^^ n) x = x"
  by (induction n) simp_all

lemma funpow_period_mod:
  assumes "(f ^^ m) x = x"
  shows "(f ^^ n) x = (f ^^ (n mod m)) x"
proof -
  have "((f ^^ m) ^^ (n div m)) x = x"
    using assms by (rule funpow_fixed)
  then have "(f ^^ (m * (n div m))) x = x"
    by (simp add: funpow_mult)
  then have "(f ^^ (n mod m)) ((f ^^ (m * (n div m))) x) = (f ^^ (n mod m)) x"
    by simp
  then have "(f ^^ (n mod m + m * (n div m))) x = (f ^^ (n mod m)) x"
    by (simp only: funpow_add comp_apply)
  then show ?thesis by simp
qed

lemma cycle_pred_plain:
  assumes "x < nRow * nCol" "nRow * nCol < SIZE_MOD"
  shows "cycle_pred nRow nCol x = nRow * (x mod nCol) + x div nCol"
    and "cycle_pred nRow nCol x < nRow * nCol"
proof -
  from assms(1) have pos: "0 < nCol" "0 < nRow"
    by (auto intro: Nat.gr0I)
  have "x mod nCol < nCol" using pos by simp
  then have m: "x mod nCol \<le> nCol - 1" by linarith
  have d: "x div nCol < nRow"
    using assms(1) pos by (simp add: less_mult_imp_div_less)
  have "nRow * (x mod nCol) \<le> nRow * (nCol - 1)"
    using m by simp
  also have "\<dots> = nRow * nCol - nRow"
    by (simp add: diff_mult_distrib2)
  finally have le: "nRow * (x mod nCol) \<le> nRow * nCol - nRow" .
  have "nRow \<le> nRow * nCol" using pos by simp
  with le d have lt: "nRow * (x mod nCol) + x div nCol < nRow * nCol"
    by linarith
  with assms(2) have "nRow * (x mod nCol) < SIZE_MOD" "nRow * (x mod nCol) + x div nCol < SIZE_MOD"
    by linarith+
  then show "cycle_pred nRow nCol x = nRow * (x mod nCol) + x div nCol"
    by (simp add: cycle_pred_def size_add_def size_mul_def)
  with lt show "cycle_pred nRow nCol x < nRow * nCol" by simp
qed

lemma cycle_succ_pred:
  assumes "x < nRow * nCol" "nRow * nCol < SIZE_MOD"
  shows "cycle_succ nRow nCol (cycle_pred nRow nCol x) = x"
proof -
  from assms(1) have pos: "0 < nCol" "0 < nRow"
    by (auto intro: Nat.gr0I)
  have d: "x div nCol < nRow"
    using assms(1) pos by (simp add: less_mult_imp_div_less)
  have e: "cycle_pred nRow nCol x = x div nCol + (x mod nCol) * nRow"
    using cycle_pred_plain(1)[OF assms] by (simp add: mult.commute)
  have "cycle_pred nRow nCol x mod nRow = x div nCol"
    unfolding e using d pos by (rule_tac small_plus_multiple_mod)
  moreover have "cycle_pred nRow nCol x div nRow = x mod nCol"
    unfolding e using d pos by (rule_tac small_plus_multiple_div)
  ultimately show ?thesis
    by (simp add: cycle_succ_def)
qed

lemma cycle_pred_inj:
  assumes "x < nRow * nCol" "y < nRow * nCol" "nRow * nCol < SIZE_MOD"
    and "cycle_pred nRow nCol x = cycle_pred nRow nCol y"
  shows "x = y"
proof -
  have "x = cycle_succ nRow nCol (cycle_pred nRow nCol x)"
    using cycle_succ_pred[OF assms(1,3)] by simp
  also have "\<dots> = cycle_succ nRow nCol (cycle_pred nRow nCol y)"
    by (simp only: assms(4))
  also have "\<dots> = y"
    by (rule cycle_succ_pred[OF assms(2,3)])
  finally show ?thesis .
qed

lemma cycle_pred_iter_less:
  assumes "x < nRow * nCol" "nRow * nCol < SIZE_MOD"
  shows "(cycle_pred nRow nCol ^^ k) x < nRow * nCol"
  by (induction k) (simp_all add: assms cycle_pred_plain(2))

lemma cycle_pred_iter_inj:
  assumes "x < nRow * nCol" "y < nRow * nCol" "nRow * nCol < SIZE_MOD"
    and "(cycle_pred nRow nCol ^^ k) x = (cycle_pred nRow nCol ^^ k) y"
  shows "x = y"
  using assms(4)
proof (induction k)
  case 0
  then show ?case by simp
next
  case (Suc k)
  from Suc.prems have "cycle_pred nRow nCol ((cycle_pred nRow nCol ^^ k) x) =
      cycle_pred nRow nCol ((cycle_pred nRow nCol ^^ k) y)"
    by simp
  then have "(cycle_pred nRow nCol ^^ k) x = (cycle_pred nRow nCol ^^ k) y"
    by (rule cycle_pred_inj[OF cycle_pred_iter_less[OF assms(1,3)]
          cycle_pred_iter_less[OF assms(2,3)] assms(3)])
  then show ?case by (rule Suc.IH)
qed

lemma cycle_pred_periodic:
  assumes "x < nRow * nCol" "nRow * nCol < SIZE_MOD"
  shows "\<exists>k>0. (cycle_pred nRow nCol ^^ k) x = x"
proof -
  let ?f = "\<lambda>k. (cycle_pred nRow nCol ^^ k) x"
  have "?f ` {..nRow * nCol} \<subseteq> {..<nRow * nCol}"
    using cycle_pred_iter_less[OF assms] by auto
  then have "card (?f ` {..nRow * nCol}) \<le> card {..<nRow * nCol}"
    by (intro card_mono) simp_all
  then have "card (?f ` {..nRow * nCol}) < card {..nRow * nCol}"
    by simp
  then have "\<not> inj_on ?f {..nRow * nCol}"
    by (rule pigeonhole)
  then obtain a0 b0 where ab0: "a0 \<noteq> b0" "?f a0 = ?f b0"
    unfolding inj_on_def by blast
  define a where "a = min a0 b0"
  define b where "b = max a0 b0"
  have ab: "a < b" "?f a = ?f b"
    using ab0 by (auto simp: a_def b_def min_def max_def)
  have "(cycle_pred nRow nCol ^^ a) ((cycle_pred nRow nCol ^^ (b - a)) x) = (cycle_pred nRow nCol ^^ a) x"
    using ab funpow_split[of a b "cycle_pred nRow nCol" x] by simp
  then have "(cycle_pred nRow nCol ^^ (b - a)) x = x"
    by (rule cycle_pred_iter_inj[OF cycle_pred_iter_less[OF assms] assms(1) assms(2)])
  with ab(1) show ?thesis
    by (intro exI[of _ "b - a"]) simp
qed

lemma cycle_pred_bij:
  assumes "nRow * nCol < SIZE_MOD"
  shows "bij_betw (cycle_pred nRow nCol) {..<nRow * nCol} {..<nRow * nCol}"
proof -
  have inj: "inj_on (cycle_pred nRow nCol) {..<nRow * nCol}"
    using cycle_pred_inj[OF _ _ assms] by (auto simp: inj_on_def)
  have sub: "cycle_pred nRow nCol ` {..<nRow * nCol} \<subseteq> {..<nRow * nCol}"
    using cycle_pred_plain(2)[OF _ assms] by auto
  have "card (cycle_pred nRow nCol ` {..<nRow * nCol}) = card {..<nRow * nCol}"
    using inj by (rule card_image)
  with sub have "cycle_pred nRow nCol ` {..<nRow * nCol} = {..<nRow * nCol}"
    by (intro card_subset_eq) simp_all
  with inj show ?thesis by (simp add: bij_betw_def)
qed

lemma orbit_back:
  assumes "j < nRow * nCol" "nRow * nCol < SIZE_MOD"
    and "(cycle_pred nRow nCol ^^ k) j = i"
  shows "\<exists>l. j = (cycle_pred nRow nCol ^^ l) i"
proof -
  from cycle_pred_periodic[OF assms(1,2)] obtain m where
    m: "0 < m" "(cycle_pred nRow nCol ^^ m) j = j" by blast
  have "((cycle_pred nRow nCol ^^ m) ^^ Suc k) j = j"
    using m(2) by (rule funpow_fixed)
  then have full: "(cycle_pred nRow nCol ^^ (m * Suc k)) j = j"
    by (simp only: funpow_mult)
  have "k \<le> m * Suc k" using m(1) by (cases m) simp_all
  then have "(cycle_pred nRow nCol ^^ (m * Suc k - k)) ((cycle_pred nRow nCol ^^ k) j) =
      (cycle_pred nRow nCol ^^ (m * Suc k)) j"
    by (rule funpow_split')
  with full assms(3) have "j = (cycle_pred nRow nCol ^^ (m * Suc k - k)) i" by simp
  then show ?thesis ..
qed

subsection \<open>The two inner loops\<close>

lemma walk_back_le: "x \<le> i \<Longrightarrow> walk_back nRow nCol i x = Some x"
  by (subst walk_back.simps) simp

lemma walk_back_gt:
  "i < x \<Longrightarrow> walk_back nRow nCol i x = walk_back nRow nCol i (cycle_pred nRow nCol x)"
  by (subst walk_back.simps) simp

lemma walk_back_reaches:
  assumes "a \<le> b" "(cycle_pred nRow nCol ^^ b) i \<le> i"
    and "\<forall>k. a \<le> k \<and> k < b \<longrightarrow> i < (cycle_pred nRow nCol ^^ k) i"
  shows "walk_back nRow nCol i ((cycle_pred nRow nCol ^^ a) i) = Some ((cycle_pred nRow nCol ^^ b) i)"
  using assms
proof (induction "b - a" arbitrary: a)
  case 0
  then have "a = b" by simp
  with "0.prems"(2) show ?case by (simp add: walk_back_le)
next
  case (Suc d)
  then have lt: "a < b" by simp
  with Suc.prems(3) have "i < (cycle_pred nRow nCol ^^ a) i" by simp
  then have "walk_back nRow nCol i ((cycle_pred nRow nCol ^^ a) i) =
      walk_back nRow nCol i ((cycle_pred nRow nCol ^^ Suc a) i)"
    by (simp add: walk_back_gt)
  also have "\<dots> = Some ((cycle_pred nRow nCol ^^ b) i)"
  proof (rule Suc.hyps(1))
    show "d = b - Suc a" using Suc.hyps(2) by simp
    show "Suc a \<le> b" using lt by simp
    show "(cycle_pred nRow nCol ^^ b) i \<le> i" by (rule Suc.prems(2))
    show "\<forall>k. Suc a \<le> k \<and> k < b \<longrightarrow> i < (cycle_pred nRow nCol ^^ k) i"
      using Suc.prems(3) by simp
  qed
  finally show ?case .
qed

lemma walk_back_terminates:
  assumes N: "nRow * nCol < SIZE_MOD" and i: "i < nRow * nCol"
  shows "\<exists>x\<le>i. walk_back nRow nCol i (cycle_pred nRow nCol i) = Some x"
proof -
  let ?cp = "cycle_pred nRow nCol"
  from cycle_pred_periodic[OF i N] obtain m where m: "0 < m" "(?cp ^^ m) i = i"
    by blast
  define b where "b = (LEAST k. 0 < k \<and> (?cp ^^ k) i \<le> i)"
  have ex: "0 < m \<and> (?cp ^^ m) i \<le> i" using m by simp
  have b: "0 < b" "(?cp ^^ b) i \<le> i"
    using LeastI[of "\<lambda>k. 0 < k \<and> (?cp ^^ k) i \<le> i" m, OF ex] by (simp_all add: b_def)
  have above: "\<forall>k. 1 \<le> k \<and> k < b \<longrightarrow> i < (?cp ^^ k) i"
  proof (intro allI impI)
    fix k assume k: "1 \<le> k \<and> k < b"
    then have "\<not> (0 < k \<and> (?cp ^^ k) i \<le> i)"
      using not_less_Least[of k "\<lambda>k. 0 < k \<and> (?cp ^^ k) i \<le> i"] by (simp add: b_def)
    with k show "i < (?cp ^^ k) i" by simp
  qed
  have "walk_back nRow nCol i ((?cp ^^ 1) i) = Some ((?cp ^^ b) i)"
    using b above by (intro walk_back_reaches) simp_all
  then have "walk_back nRow nCol i (?cp i) = Some ((?cp ^^ b) i)" by simp
  with b(2) show ?thesis by blast
qed

lemma rotate_cycle_stop: "rotate_cycle table nRow nCol i s i = Some (Inr (table, s))"
  by (subst rotate_cycle.simps) simp

lemma rotate_cycle_step:
  assumes "x \<noteq> i" "x < length table" "s < length table"
  shows "rotate_cycle table nRow nCol i s x =
    rotate_cycle (table[s := table ! x]) nRow nCol i x (cycle_pred nRow nCol x)"
  using assms by (subst rotate_cycle.simps) simp

lemma rotate_cycle_spec:
  assumes per: "(cycle_pred nRow nCol ^^ m) i = i"
    and dist: "\<forall>k<m. \<forall>l<m. (cycle_pred nRow nCol ^^ k) i = (cycle_pred nRow nCol ^^ l) i \<longrightarrow> k = l"
    and bnd: "\<forall>k<m. (cycle_pred nRow nCol ^^ k) i < length table"
    and am: "a < m"
  shows "\<exists>table'.
      rotate_cycle table nRow nCol i ((cycle_pred nRow nCol ^^ a) i) ((cycle_pred nRow nCol ^^ Suc a) i)
        = Some (Inr (table', (cycle_pred nRow nCol ^^ (m - 1)) i)) \<and>
      length table' = length table \<and>
      (\<forall>k. a \<le> k \<and> k < m - 1 \<longrightarrow>
         table' ! ((cycle_pred nRow nCol ^^ k) i) = table ! ((cycle_pred nRow nCol ^^ Suc k) i)) \<and>
      (\<forall>y. (\<forall>k. a \<le> k \<and> k < m - 1 \<longrightarrow> y \<noteq> (cycle_pred nRow nCol ^^ k) i) \<longrightarrow>
         table' ! y = table ! y)"
  using bnd am
proof (induction "m - 1 - a" arbitrary: a table)
  case 0
  then have "Suc a = m" by simp
  then have "(cycle_pred nRow nCol ^^ Suc a) i = i" "a = m - 1"
    using per by simp_all
  then show ?case
    by (intro exI[of _ table]) (auto simp: rotate_cycle_stop)
next
  case (Suc d)
  let ?o = "\<lambda>k. (cycle_pred nRow nCol ^^ k) i"
  from Suc.hyps(2) have lt: "Suc a < m" by simp
  have neq: "?o (Suc a) \<noteq> i"
  proof
    assume "?o (Suc a) = i"
    then have "?o (Suc a) = ?o 0" by simp
    with dist lt have "Suc a = 0" by blast
    then show False by simp
  qed
  have bx: "?o (Suc a) < length table"
    by (rule Suc.prems(1)[rule_format, OF lt])
  have bs: "?o a < length table"
    by (rule Suc.prems(1)[rule_format, OF Suc_lessD[OF lt]])
  define table1 where "table1 = table[?o a := table ! ?o (Suc a)]"
  have step: "rotate_cycle table nRow nCol i (?o a) (?o (Suc a)) =
      rotate_cycle table1 nRow nCol i (?o (Suc a)) (?o (Suc (Suc a)))"
    using rotate_cycle_step[OF neq bx bs] by (simp add: table1_def)
  have "\<exists>table'.
      rotate_cycle table1 nRow nCol i (?o (Suc a)) (?o (Suc (Suc a)))
        = Some (Inr (table', ?o (m - 1))) \<and>
      length table' = length table1 \<and>
      (\<forall>k. Suc a \<le> k \<and> k < m - 1 \<longrightarrow> table' ! (?o k) = table1 ! (?o (Suc k))) \<and>
      (\<forall>y. (\<forall>k. Suc a \<le> k \<and> k < m - 1 \<longrightarrow> y \<noteq> ?o k) \<longrightarrow> table' ! y = table1 ! y)"
  proof (rule Suc.hyps(1))
    show "d = m - 1 - Suc a" using Suc.hyps(2) by simp
    show "\<forall>k<m. ?o k < length table1" using Suc.prems(1) by (simp add: table1_def)
    show "Suc a < m" by (rule lt)
  qed
  then obtain table' where
    r: "rotate_cycle table1 nRow nCol i (?o (Suc a)) (?o (Suc (Suc a))) = Some (Inr (table', ?o (m - 1)))"
    and len: "length table' = length table1"
    and moved: "\<And>k. Suc a \<le> k \<Longrightarrow> k < m - 1 \<Longrightarrow> table' ! (?o k) = table1 ! (?o (Suc k))"
    and kept: "\<And>y. (\<forall>k. Suc a \<le> k \<and> k < m - 1 \<longrightarrow> y \<noteq> ?o k) \<Longrightarrow> table' ! y = table1 ! y"
    by blast
  have differ: "?o k \<noteq> ?o l" if "k < m" "l < m" "k \<noteq> l" for k l
    using dist that by blast
  have moved': "table' ! (?o k) = table ! (?o (Suc k))" if "a \<le> k" "k < m - 1" for k
  proof (cases "k = a")
    case True
    have "?o a \<noteq> ?o k'" if "Suc a \<le> k' \<and> k' < m - 1" for k'
      using that Suc.prems(2) by (intro differ) auto
    then have "\<forall>k'. Suc a \<le> k' \<and> k' < m - 1 \<longrightarrow> ?o a \<noteq> ?o k'"
      by blast
    then have "table' ! (?o a) = table1 ! (?o a)" by (rule kept)
    also have "\<dots> = table ! (?o (Suc a))"
      using bs by (simp add: table1_def)
    finally show ?thesis using True by simp
  next
    case False
    with that have k: "Suc a \<le> k" by simp
    then have "table' ! (?o k) = table1 ! (?o (Suc k))" using that(2) by (rule moved)
    also have "\<dots> = table ! (?o (Suc k))"
    proof -
      have "?o (Suc k) \<noteq> ?o a"
        using that k Suc.prems(2) by (intro differ) auto
      then show ?thesis by (simp add: table1_def)
    qed
    finally show ?thesis .
  qed
  have kept': "table' ! y = table ! y" if "\<forall>k. a \<le> k \<and> k < m - 1 \<longrightarrow> y \<noteq> ?o k" for y
  proof -
    have "a \<le> a \<and> a < m - 1" using lt by simp
    with that have ya: "y \<noteq> ?o a" by blast
    from that have "\<forall>k. Suc a \<le> k \<and> k < m - 1 \<longrightarrow> y \<noteq> ?o k" by simp
    then have "table' ! y = table1 ! y" by (rule kept)
    with ya show ?thesis by (simp add: table1_def)
  qed
  show ?case
    using step r len moved' kept' by (intro exI[of _ table']) (simp add: table1_def)
qed

lemma rotate_full:
  assumes per: "(cycle_pred nRow nCol ^^ m) i = i"
    and dist: "\<forall>k<m. \<forall>l<m. (cycle_pred nRow nCol ^^ k) i = (cycle_pred nRow nCol ^^ l) i \<longrightarrow> k = l"
    and bnd: "\<forall>k<m. (cycle_pred nRow nCol ^^ k) i < length table"
    and m: "0 < m"
  shows "\<exists>table' s.
      rotate_cycle table nRow nCol i i (cycle_pred nRow nCol i) = Some (Inr (table', s)) \<and>
      s < length table' \<and>
      length (table'[s := table ! i]) = length table \<and>
      (\<forall>k<m. table'[s := table ! i] ! ((cycle_pred nRow nCol ^^ k) i) =
         table ! ((cycle_pred nRow nCol ^^ Suc k) i)) \<and>
      (\<forall>y. (\<forall>k<m. y \<noteq> (cycle_pred nRow nCol ^^ k) i) \<longrightarrow> table'[s := table ! i] ! y = table ! y)"
proof -
  let ?o = "\<lambda>k. (cycle_pred nRow nCol ^^ k) i"
  let ?s = "?o (m - 1)"
  from rotate_cycle_spec[OF per dist bnd m] obtain table' where
    r: "rotate_cycle table nRow nCol i (?o 0) (?o (Suc 0)) = Some (Inr (table', ?s))"
    and len: "length table' = length table"
    and moved: "\<And>k. k < m - 1 \<Longrightarrow> table' ! (?o k) = table ! (?o (Suc k))"
    and kept: "\<And>y. (\<forall>k. k < m - 1 \<longrightarrow> y \<noteq> ?o k) \<Longrightarrow> table' ! y = table ! y"
    by auto
  have sb: "?s < length table'"
    using bnd m len by simp
  have differ: "?o k \<noteq> ?o l" if "k < m" "l < m" "k \<noteq> l" for k l
    using dist that by blast
  have last: "?o (Suc (m - 1)) = i"
    using per m by simp
  have a: "table'[?s := table ! i] ! (?o k) = table ! (?o (Suc k))" if "k < m" for k
  proof (cases "k = m - 1")
    case True
    then show ?thesis using sb last by simp
  next
    case False
    with that have k: "k < m - 1" by simp
    have "?o k \<noteq> ?s" using that m False by (intro differ) auto
    then have "table'[?s := table ! i] ! (?o k) = table' ! (?o k)" by simp
    with moved[OF k] show ?thesis by simp
  qed
  have b: "table'[?s := table ! i] ! y = table ! y" if "\<forall>k<m. y \<noteq> ?o k" for y
  proof -
    have "y \<noteq> ?s" using that m by simp
    then have "table'[?s := table ! i] ! y = table' ! y" by simp
    also have "\<dots> = table ! y" using that by (intro kept) simp
    finally show ?thesis .
  qed
  from r have r': "rotate_cycle table nRow nCol i i (cycle_pred nRow nCol i) = Some (Inr (table', ?s))"
    by simp
  show ?thesis
    apply (rule exI[of _ table'], rule exI[of _ ?s])
    using r' sb len a b by simp
qed

subsection \<open>The loop invariant\<close>

lemma visited_mono: "visited nRow nCol i j \<Longrightarrow> visited nRow nCol (Suc i) j"
  by (auto simp: visited_def intro: less_SucI)

lemma visited_pred:
  "visited nRow nCol i (cycle_pred nRow nCol j) \<Longrightarrow> visited nRow nCol i j"
  unfolding visited_def
proof (elim exE)
  fix k
  assume "(cycle_pred nRow nCol ^^ k) (cycle_pred nRow nCol j) < i"
  then have "(cycle_pred nRow nCol ^^ Suc k) j < i"
    by (simp add: funpow_swap1)
  then show "\<exists>k. (cycle_pred nRow nCol ^^ k) j < i" by blast
qed

lemma visited_iter:
  "visited nRow nCol i ((cycle_pred nRow nCol ^^ k) j) \<Longrightarrow> visited nRow nCol i j"
proof (induction k)
  case 0
  then show ?case by simp
next
  case (Suc k)
  then show ?case by (simp add: visited_pred)
qed

lemma newly_visited:
  assumes "visited nRow nCol (Suc i) j" "\<not> visited nRow nCol i j"
  shows "\<exists>k. (cycle_pred nRow nCol ^^ k) j = i"
proof -
  from assms(1) obtain k where "(cycle_pred nRow nCol ^^ k) j < Suc i"
    by (auto simp: visited_def)
  moreover from assms(2) have "\<not> (cycle_pred nRow nCol ^^ k) j < i"
    by (auto simp: visited_def)
  ultimately have "(cycle_pred nRow nCol ^^ k) j = i" by simp
  then show ?thesis ..
qed

lemma partly_transposed_step:
  assumes inv: "partly_transposed t0 nRow nCol i t"
    and len: "length t' = length t"
    and new: "\<And>j. j < length t0 \<Longrightarrow> visited nRow nCol (Suc i) j \<Longrightarrow> \<not> visited nRow nCol i j \<Longrightarrow>
        t' ! j = t0 ! cycle_pred nRow nCol j"
    and old: "\<And>j. j < length t0 \<Longrightarrow> visited nRow nCol i j \<or> \<not> visited nRow nCol (Suc i) j \<Longrightarrow>
        t' ! j = t ! j"
  shows "partly_transposed t0 nRow nCol (Suc i) t'"
  unfolding partly_transposed_def
proof (intro conjI allI impI)
  show "length t' = length t0"
    using inv len by (simp add: partly_transposed_def)
next
  fix j assume j: "j < length t0"
  from inv j have tj: "t ! j = (if visited nRow nCol i j then t0 ! cycle_pred nRow nCol j else t0 ! j)"
    by (simp add: partly_transposed_def)
  show "t' ! j = (if visited nRow nCol (Suc i) j then t0 ! cycle_pred nRow nCol j else t0 ! j)"
  proof (cases "visited nRow nCol i j")
    case True
    then show ?thesis using old[OF j] tj visited_mono[OF True] by simp
  next
    case False
    show ?thesis
    proof (cases "visited nRow nCol (Suc i) j")
      case True
      then show ?thesis using new[OF j True False] by simp
    next
      case False
      then show ?thesis using old[OF j] tj \<open>\<not> visited nRow nCol i j\<close> by simp
    qed
  qed
qed

lemma skip_visited:
  assumes "visited nRow nCol i i" "partly_transposed t0 nRow nCol i t"
  shows "partly_transposed t0 nRow nCol (Suc i) t"
proof (rule partly_transposed_step[OF assms(2)])
  fix j
  assume "visited nRow nCol (Suc i) j" "\<not> visited nRow nCol i j"
  then obtain k where "(cycle_pred nRow nCol ^^ k) j = i"
    using newly_visited by blast
  with assms(1) have "visited nRow nCol i ((cycle_pred nRow nCol ^^ k) j)" by simp
  then have "visited nRow nCol i j" by (rule visited_iter)
  with \<open>\<not> visited nRow nCol i j\<close> show "t ! j = t0 ! cycle_pred nRow nCol j" by simp
qed simp_all

lemma skip_fixed:
  assumes N: "nRow * nCol < SIZE_MOD" "length t0 = nRow * nCol"
    and i: "i < nRow * nCol" "cycle_pred nRow nCol i = i"
    and inv: "partly_transposed t0 nRow nCol i t"
  shows "partly_transposed t0 nRow nCol (Suc i) t"
proof (rule partly_transposed_step[OF inv])
  fix j
  assume j: "j < length t0" and "visited nRow nCol (Suc i) j" and nv: "\<not> visited nRow nCol i j"
  then obtain k where "(cycle_pred nRow nCol ^^ k) j = i"
    using newly_visited by blast
  also have "i = (cycle_pred nRow nCol ^^ k) i"
    using i(2) by (simp add: funpow_fixed)
  finally have "j = i"
    using j N i(1) by (intro cycle_pred_iter_inj[of j nRow nCol i k]) simp_all
  with nv inv j i(2) show "t ! j = t0 ! cycle_pred nRow nCol j"
    by (simp add: partly_transposed_def)
qed simp_all

lemma rotate_keeps_invariant:
  assumes N: "nRow * nCol < SIZE_MOD" "length t0 = nRow * nCol"
    and i: "i < nRow * nCol"
    and inv: "partly_transposed t0 nRow nCol i t"
    and b: "0 < b" "(cycle_pred nRow nCol ^^ b) i = i"
    and above: "\<forall>k. 0 < k \<and> k < b \<longrightarrow> i < (cycle_pred nRow nCol ^^ k) i"
  shows "\<exists>table' s.
      rotate_cycle t nRow nCol i i (cycle_pred nRow nCol i) = Some (Inr (table', s)) \<and>
      s < length table' \<and>
      partly_transposed t0 nRow nCol (Suc i) (table'[s := t ! i])"
proof -
  let ?o = "\<lambda>k. (cycle_pred nRow nCol ^^ k) i"
  have len: "length t = nRow * nCol"
    using inv N by (simp add: partly_transposed_def)
  have ge: "i \<le> ?o k" for k
  proof -
    have "?o k = ?o (k mod b)" using b(2) by (rule funpow_period_mod)
    moreover have "i \<le> ?o (k mod b)"
    proof (cases "k mod b = 0")
      case True
      then show ?thesis by simp
    next
      case False
      then have "0 < k mod b \<and> k mod b < b" using b(1) by simp
      with above show ?thesis by (simp add: less_imp_le)
    qed
    ultimately show ?thesis by simp
  qed
  have dist: "\<forall>k<b. \<forall>l<b. ?o k = ?o l \<longrightarrow> k = l"
  proof -
    have aux: False if "k < l" "l < b" "?o k = ?o l" for k l
    proof -
      have "(cycle_pred nRow nCol ^^ k) (?o (l - k)) = ?o l"
        using that(1) by (intro funpow_split) simp
      with that(3) have "(cycle_pred nRow nCol ^^ k) (?o (l - k)) = (cycle_pred nRow nCol ^^ k) i"
        by simp
      then have "?o (l - k) = i"
        by (rule cycle_pred_iter_inj[OF cycle_pred_iter_less[OF i N(1)] i N(1)])
      moreover have "i < ?o (l - k)"
        using above that by simp
      ultimately show False by simp
    qed
    show ?thesis
    proof (intro allI impI)
      fix k l assume "k < b" "l < b" "?o k = ?o l"
      then show "k = l"
        using aux[of k l] aux[of l k] by (cases k l rule: linorder_cases) simp_all
    qed
  qed
  have bnd: "\<forall>k<b. ?o k < length t"
    using cycle_pred_iter_less[OF i N(1)] len by simp
  from rotate_full[OF b(2) dist bnd b(1)] obtain table' s where
    r: "rotate_cycle t nRow nCol i i (cycle_pred nRow nCol i) = Some (Inr (table', s))"
    and s: "s < length table'"
    and len': "length (table'[s := t ! i]) = length t"
    and moved: "\<And>k. k < b \<Longrightarrow> table'[s := t ! i] ! (?o k) = t ! (?o (Suc k))"
    and kept: "\<And>y. (\<forall>k<b. y \<noteq> ?o k) \<Longrightarrow> table'[s := t ! i] ! y = t ! y"
    by blast
  have not_visited: "\<not> visited nRow nCol i (?o k)" for k
  proof
    assume "visited nRow nCol i (?o k)"
    then obtain k' where "(cycle_pred nRow nCol ^^ k') (?o k) < i"
      by (auto simp: visited_def)
    then have "?o (k' + k) < i"
      by (simp only: funpow_add comp_apply)
    with ge[of "k' + k"] show False by simp
  qed
  have "partly_transposed t0 nRow nCol (Suc i) (table'[s := t ! i])"
  proof (rule partly_transposed_step[OF inv len'])
    fix j
    assume j: "j < length t0" and "visited nRow nCol (Suc i) j" and nv: "\<not> visited nRow nCol i j"
    then obtain k where "(cycle_pred nRow nCol ^^ k) j = i"
      using newly_visited by blast
    with j N obtain l where "j = ?o l"
      using orbit_back[of j nRow nCol k i] by auto
    then have jl: "j = ?o (l mod b)"
      using funpow_period_mod[OF b(2), of l] by simp
    have lb: "l mod b < b" using b(1) by simp
    have "table'[s := t ! i] ! j = t ! (?o (Suc (l mod b)))"
      using moved[OF lb] jl by simp
    also have "?o (Suc (l mod b)) = cycle_pred nRow nCol j"
      using jl by simp
    also have "t ! cycle_pred nRow nCol j = t0 ! cycle_pred nRow nCol j"
    proof -
      have "cycle_pred nRow nCol j < length t0"
        using cycle_pred_plain(2)[of j nRow nCol] j N by simp
      moreover have "\<not> visited nRow nCol i (cycle_pred nRow nCol j)"
        using nv visited_pred by blast
      ultimately show ?thesis
        using inv by (simp add: partly_transposed_def)
    qed
    finally show "table'[s := t ! i] ! j = t0 ! cycle_pred nRow nCol j" .
  next
    fix j
    assume j: "j < length t0" and c: "visited nRow nCol i j \<or> \<not> visited nRow nCol (Suc i) j"
    have "j \<noteq> ?o k" if "k < b" for k
    proof
      assume jk: "j = ?o k"
      from c show False
      proof
        assume "visited nRow nCol i j"
        with jk not_visited[of k] show False by simp
      next
        assume n: "\<not> visited nRow nCol (Suc i) j"
        have "(cycle_pred nRow nCol ^^ (b - k)) (?o k) = ?o b"
          using that by (intro funpow_split') simp
        with jk b(2) have "(cycle_pred nRow nCol ^^ (b - k)) j < Suc i" by simp
        then have "visited nRow nCol (Suc i) j"
          unfolding visited_def by blast
        with n show False by simp
      qed
    qed
    then show "table'[s := t ! i] ! j = t ! j"
      by (intro kept) blast
  qed
  with r s show ?thesis by blast
qed

lemma partly_transposed_final:
  assumes N: "nRow * nCol < SIZE_MOD" "length t0 = nRow * nCol"
    and inv: "partly_transposed t0 nRow nCol i t"
    and i: "nRow * nCol - 1 \<le> i" and j: "j < length t0"
  shows "t ! j = t0 ! cycle_pred nRow nCol j"
proof (cases "visited nRow nCol i j")
  case True
  with inv j show ?thesis by (simp add: partly_transposed_def)
next
  case False
  then have a: "\<not> (cycle_pred nRow nCol ^^ k) j < i" for k
    unfolding visited_def by blast
  from a[of 0] i j N have "j = nRow * nCol - 1" by simp
  moreover from a[of 1] i have "nRow * nCol - 1 \<le> cycle_pred nRow nCol j" by simp
  moreover have "cycle_pred nRow nCol j < nRow * nCol"
    using cycle_pred_plain(2)[of j nRow nCol] j N by simp
  ultimately have "cycle_pred nRow nCol j = j" by simp
  with False inv j show ?thesis by (simp add: partly_transposed_def)
qed

lemma partly_transposed_start:
  assumes N: "0 < nRow * nCol" "nRow * nCol < SIZE_MOD" "length t0 = nRow * nCol"
  shows "partly_transposed t0 nRow nCol (Suc 0) t0"
  unfolding partly_transposed_def
proof (intro conjI allI impI)
  fix j assume j: "j < length t0"
  have z: "cycle_pred nRow nCol 0 = 0"
    using cycle_pred_plain(1)[of 0 nRow nCol] N by simp
  show "t0 ! j = (if visited nRow nCol (Suc 0) j then t0 ! cycle_pred nRow nCol j else t0 ! j)"
  proof (cases "visited nRow nCol (Suc 0) j")
    case True
    then obtain k where "(cycle_pred nRow nCol ^^ k) j = 0"
      by (auto simp: visited_def)
    also have "0 = (cycle_pred nRow nCol ^^ k) 0"
      using z by (simp add: funpow_fixed)
    finally have "j = 0"
      using j N by (intro cycle_pred_iter_inj[of j nRow nCol 0 k]) simp_all
    with z show ?thesis by simp
  next
    case False
    then show ?thesis by simp
  qed
qed simp

subsection \<open>The outer loop\<close>

lemma wrap_decrement:
  fixes n M :: nat
  assumes "0 < n" "n < M"
  shows "(n + M - 1) mod M = n - 1"
proof -
  from assms(1) have "n + M - 1 = (n - 1) + M" by simp
  then have "(n + M - 1) mod M = (n - 1) mod M" by simp
  with assms(2) show ?thesis by simp
qed

lemma loop_bound_plain:
  assumes "0 < nRow * nCol" "nRow * nCol < SIZE_MOD"
  shows "size_sub (size_mul nRow nCol) 1 = nRow * nCol - 1"
proof -
  have "1 < SIZE_MOD"
    by (simp add: SIZE_MOD_def)
  then have one: "1 mod SIZE_MOD = (1::nat)"
    by simp
  have "size_sub (size_mul nRow nCol) 1 = (nRow * nCol + SIZE_MOD - 1) mod SIZE_MOD"
    using assms(2) by (simp only: size_sub_def size_mul_def one mod_less)
  with wrap_decrement[OF assms] show ?thesis by simp
qed

lemma loop_bound_wraps:
  assumes "nRow * nCol = 0"
  shows "size_sub (size_mul nRow nCol) 1 = SIZE_MOD - 1"
proof -
  have big: "1 < SIZE_MOD" by (simp add: SIZE_MOD_def)
  have "size_mul nRow nCol = 0"
    unfolding size_mul_def assms by simp
  then have "size_sub (size_mul nRow nCol) 1 = (SIZE_MOD - 1) mod SIZE_MOD"
    using big by (simp add: size_sub_def)
  also have "\<dots> = SIZE_MOD - 1"
    using big by simp
  finally show ?thesis .
qed

lemma transpose_from_exit:
  assumes "0 < nRow * nCol" "nRow * nCol < SIZE_MOD" "nRow * nCol - 1 \<le> i"
  shows "transpose_from t nRow nCol i = Some (Inr t)"
proof -
  have "\<not> i < size_sub (size_mul nRow nCol) 1"
    using loop_bound_plain[OF assms(1,2)] assms(3) by simp
  then show ?thesis
    by (subst transpose_from.simps) (simp only: if_False)
qed

lemma transpose_from_body:
  assumes "0 < nRow * nCol" "nRow * nCol < SIZE_MOD" "i < nRow * nCol - 1"
  shows "transpose_from t nRow nCol i =
    (if cycle_pred nRow nCol i \<le> i then transpose_from t nRow nCol (Suc i)
     else
       (case walk_back nRow nCol i (cycle_pred nRow nCol i) of
          None \<Rightarrow> None
        | Some x' \<Rightarrow>
            if x' < i then transpose_from t nRow nCol (Suc i)
            else if length t \<le> i then Some (Inl (OutOfBounds i))
            else
              (case rotate_cycle t nRow nCol i i (cycle_pred nRow nCol i) of
                 None \<Rightarrow> None
               | Some (Inl f) \<Rightarrow> Some (Inl f)
               | Some (Inr (table', s)) \<Rightarrow>
                   if length table' \<le> s then Some (Inl (OutOfBounds s))
                   else transpose_from (table'[s := t ! i]) nRow nCol (Suc i))))"
proof -
  have "Suc i < SIZE_MOD" using assms by simp
  then have inc: "size_add i 1 = Suc i"
    by (simp add: size_add_def)
  have nz: "nCol \<noteq> 0" using assms(1) by simp
  have c: "i < size_sub (size_mul nRow nCol) 1"
    using loop_bound_plain[OF assms(1,2)] assms(3) by simp
  show ?thesis
    by (subst transpose_from.simps) (simp only: c nz if_True if_False inc Let_def)
qed

lemma transpose_from_correct:
  assumes N: "0 < nRow * nCol" "nRow * nCol < SIZE_MOD" "length t0 = nRow * nCol"
    and inv: "partly_transposed t0 nRow nCol i t"
  shows "\<exists>t'. transpose_from t nRow nCol i = Some (Inr t') \<and> length t' = length t0 \<and>
    (\<forall>j<length t0. t' ! j = t0 ! cycle_pred nRow nCol j)"
  using inv
proof (induction "nRow * nCol - 1 - i" arbitrary: i t)
  case 0
  then have i: "nRow * nCol - 1 \<le> i" by simp
  have "transpose_from t nRow nCol i = Some (Inr t)"
    using N(1,2) i by (rule transpose_from_exit)
  moreover have "length t = length t0"
    using "0.prems" by (simp add: partly_transposed_def)
  moreover have "\<forall>j<length t0. t ! j = t0 ! cycle_pred nRow nCol j"
    using partly_transposed_final[OF N(2,3) "0.prems" i] by blast
  ultimately show ?case by blast
next
  case (Suc d)
  let ?cp = "cycle_pred nRow nCol"
  from Suc.hyps(2) have i: "i < nRow * nCol - 1" by simp
  then have iN: "i < nRow * nCol" by simp
  have d: "d = nRow * nCol - 1 - Suc i" using Suc.hyps(2) by simp
  have len: "length t = nRow * nCol"
    using Suc.prems N(3) by (simp add: partly_transposed_def)
  note body = transpose_from_body[OF N(1,2) i, of t]
  have skip: ?case if "partly_transposed t0 nRow nCol (Suc i) t"
      and "transpose_from t nRow nCol i = transpose_from t nRow nCol (Suc i)"
    using Suc.hyps(1)[OF d that(1)] that(2) by simp
  show ?case
  proof (cases "?cp i \<le> i")
    case True
    have "partly_transposed t0 nRow nCol (Suc i) t"
    proof (cases "?cp i = i")
      case True
      show ?thesis by (rule skip_fixed[OF N(2,3) iN True Suc.prems])
    next
      case False
      with True have "(?cp ^^ 1) i < i" by simp
      then have "visited nRow nCol i i" unfolding visited_def by blast
      then show ?thesis using Suc.prems by (rule skip_visited)
    qed
    moreover have "transpose_from t nRow nCol i = transpose_from t nRow nCol (Suc i)"
      using body True by simp
    ultimately show ?thesis by (rule skip)
  next
    case False
    from cycle_pred_periodic[OF iN N(2)] obtain m where m: "0 < m" "(?cp ^^ m) i = i"
      by blast
    define b where "b = (LEAST k. 0 < k \<and> (?cp ^^ k) i \<le> i)"
    have ex: "0 < m \<and> (?cp ^^ m) i \<le> i" using m by simp
    have b: "0 < b" "(?cp ^^ b) i \<le> i"
      using LeastI[of "\<lambda>k. 0 < k \<and> (?cp ^^ k) i \<le> i" m, OF ex] by (simp_all add: b_def)
    have above: "\<forall>k. 0 < k \<and> k < b \<longrightarrow> i < (?cp ^^ k) i"
    proof (intro allI impI)
      fix k assume k: "0 < k \<and> k < b"
      then have "\<not> (0 < k \<and> (?cp ^^ k) i \<le> i)"
        using not_less_Least[of k "\<lambda>k. 0 < k \<and> (?cp ^^ k) i \<le> i"] by (simp add: b_def)
      with k show "i < (?cp ^^ k) i" by simp
    qed
    have "walk_back nRow nCol i ((?cp ^^ 1) i) = Some ((?cp ^^ b) i)"
      using b above by (intro walk_back_reaches) simp_all
    then have walk: "walk_back nRow nCol i (?cp i) = Some ((?cp ^^ b) i)" by simp
    show ?thesis
    proof (cases "(?cp ^^ b) i < i")
      case True
      then have "visited nRow nCol i i" unfolding visited_def by blast
      then have "partly_transposed t0 nRow nCol (Suc i) t"
        using Suc.prems by (rule skip_visited)
      moreover have "transpose_from t nRow nCol i = transpose_from t nRow nCol (Suc i)"
        using body False walk True by simp
      ultimately show ?thesis by (rule skip)
    next
      case nolt: False
      with b(2) have per: "(?cp ^^ b) i = i" by simp
      from rotate_keeps_invariant[OF N(2,3) iN Suc.prems b(1) per above]
      obtain table' s where
        r: "rotate_cycle t nRow nCol i i (?cp i) = Some (Inr (table', s))"
        and s: "s < length table'"
        and inv': "partly_transposed t0 nRow nCol (Suc i) (table'[s := t ! i])"
        by blast
      have "transpose_from t nRow nCol i = transpose_from (table'[s := t ! i]) nRow nCol (Suc i)"
        using body False walk nolt r s len iN by simp
      with Suc.hyps(1)[OF d inv'] show ?thesis by simp
    qed
  qed
qed

lemma transpose_correct:
  assumes "0 < nRow * nCol" "nRow * nCol < SIZE_MOD" "length t = nRow * nCol"
  shows "\<exists>t'. transpose_table t nRow nCol = Some (Inr t') \<and> length t' = length t \<and>
    (\<forall>j<length t. t' ! j = t ! cycle_pred nRow nCol j)"
  unfolding transpose_table_def
  using transpose_from_correct[OF assms partly_transposed_start[OF assms]] by simp

text \<open>
  Claim C1. For all \<open>nRow \<ge> 1\<close>, \<open>nCol \<ge> 1\<close> and every buffer of \<open>nRow * nCol\<close> cells
  (a C array, so its size is below \<open>SIZE_MOD\<close>), the call returns without a fault, the
  cell at \<open>r * nCol + c\<close> of the result is the cell at \<open>c * nRow + r\<close> of the argument
  for all \<open>r < nRow\<close> and \<open>c < nCol\<close>, and the result is the naive reference
  transposition.
\<close>

theorem transpose_matches_reference:
  assumes "1 \<le> nRow" "1 \<le> nCol" "nRow * nCol < SIZE_MOD" "length t = nRow * nCol"
  shows "\<exists>t'. transpose_table t nRow nCol = Some (Inr t') \<and>
           (\<forall>r<nRow. \<forall>c<nCol. t' ! (r * nCol + c) = t ! (c * nRow + r)) \<and>
           t' = reference_transpose t nRow nCol"
proof -
  have pos: "0 < nRow * nCol" using assms(1,2) by simp
  from transpose_correct[OF pos assms(3,4)] obtain t' where
    run: "transpose_table t nRow nCol = Some (Inr t')"
    and len: "length t' = length t"
    and el: "\<And>j. j < length t \<Longrightarrow> t' ! j = t ! cycle_pred nRow nCol j"
    by blast
  have el': "t' ! j = t ! ((j mod nCol) * nRow + j div nCol)" if "j < nRow * nCol" for j
    using el[of j] that assms(3,4) cycle_pred_plain(1)[of j nRow nCol] by (simp add: mult.commute)
  have cells: "t' ! (r * nCol + c) = t ! (c * nRow + r)" if "r < nRow" "c < nCol" for r c
  proof -
    have "r * nCol + c < nRow * nCol"
    proof -
      have "r * nCol + c < r * nCol + nCol" using that(2) by simp
      also have "\<dots> = Suc r * nCol" by simp
      also have "\<dots> \<le> nRow * nCol" using that(1) by (intro mult_le_mono1) simp
      finally show ?thesis .
    qed
    from el'[OF this] that(2) show ?thesis by simp
  qed
  have "t' = reference_transpose t nRow nCol"
    unfolding reference_transpose_def
    using len assms(4) el' by (intro nth_equalityI) simp_all
  with run cells show ?thesis by blast
qed

text \<open>
  The theorem at a 2-by-3 matrix stored by columns.
\<close>

theorem transpose_matches_reference_witness:
  "transpose_table [10, 11, 12, 13, 14, 15 :: nat] 2 3 = Some (Inr [10, 12, 14, 11, 13, 15])"
proof -
  have r: "reference_transpose [10, 11, 12, 13, 14, 15 :: nat] 2 3 = [10, 12, 14, 11, 13, 15]"
    by code_simp
  have "(2::nat) * 3 < SIZE_MOD" by (simp add: SIZE_MOD_def)
  from transpose_matches_reference[of 2 3 "[10, 11, 12, 13, 14, 15 :: nat]", OF _ _ this]
  show ?thesis unfolding r by auto
qed

text \<open>
  Claim C10. For all \<open>nRow\<close>, \<open>nCol\<close> with \<open>nRow * nCol \<ge> 1\<close>: the cycle predecessor
  permutes the indices below \<open>nRow * nCol\<close>, every predecessor walk started at an
  index ends at an index not above its start, and the call terminates (the result is
  \<open>Some\<close>) without an out-of-bounds access or a division by zero (the result is
  \<open>Inr\<close>). For \<open>nRow * nCol = 0\<close> the loop bound wraps to the largest \<^verbatim>\<open>size_t\<close>
  value.
\<close>

theorem transpose_terminates_in_bounds:
  "(1 \<le> nRow * nCol \<and> nRow * nCol < SIZE_MOD \<and> length t = nRow * nCol \<longrightarrow>
      bij_betw (cycle_pred nRow nCol) {..<nRow * nCol} {..<nRow * nCol} \<and>
      (\<forall>i<nRow * nCol. \<exists>x\<le>i. walk_back nRow nCol i (cycle_pred nRow nCol i) = Some x) \<and>
      (\<exists>t'. transpose_table t nRow nCol = Some (Inr t') \<and> length t' = nRow * nCol)) \<and>
   (nRow * nCol = 0 \<longrightarrow> size_sub (size_mul nRow nCol) 1 = SIZE_MOD - 1)"
proof (intro conjI impI)
  assume a: "1 \<le> nRow * nCol \<and> nRow * nCol < SIZE_MOD \<and> length t = nRow * nCol"
  then show "bij_betw (cycle_pred nRow nCol) {..<nRow * nCol} {..<nRow * nCol}"
    by (simp add: cycle_pred_bij)
  from a show "\<forall>i<nRow * nCol. \<exists>x\<le>i. walk_back nRow nCol i (cycle_pred nRow nCol i) = Some x"
    using walk_back_terminates by blast
  from a have "0 < nRow * nCol" "nRow * nCol < SIZE_MOD" "length t = nRow * nCol"
    by simp_all
  from transpose_correct[OF this] a
  show "\<exists>t'. transpose_table t nRow nCol = Some (Inr t') \<and> length t' = nRow * nCol"
    by auto
next
  assume "nRow * nCol = 0"
  then show "size_sub (size_mul nRow nCol) 1 = SIZE_MOD - 1"
    by (rule loop_bound_wraps)
qed

text \<open>
  The theorem at a 3-by-2 buffer, and at the empty product \<open>0 * 5\<close>.
\<close>

theorem transpose_terminates_in_bounds_witness:
  "(\<exists>t'. transpose_table ''abcdef'' 3 2 = Some (Inr t') \<and> length t' = 3 * 2) \<and>
   size_sub (size_mul 0 5) 1 = SIZE_MOD - 1"
proof -
  have "(3::nat) * 2 < SIZE_MOD" by (simp add: SIZE_MOD_def)
  with transpose_terminates_in_bounds[of 3 2 "''abcdef''"]
    transpose_terminates_in_bounds[of 0 5 "[]"]
  show ?thesis by simp
qed

section \<open>What \<^verbatim>\<open>IsNumber\<close> accepts\<close>

lemma char_classes_disjoint:
  "is_digit c \<Longrightarrow> \<not> is_sign c \<and> \<not> is_exp c \<and> c \<noteq> CHR ''.''"
  "is_sign c \<Longrightarrow> \<not> is_exp c \<and> c \<noteq> CHR ''.''"
  "is_exp c \<Longrightarrow> c \<noteq> CHR ''.''"
  by (auto simp: is_digit_def is_sign_def is_exp_def)

lemma count_zero_iff: "length (filter P cs) = 0 \<longleftrightarrow> list_all (\<lambda>c. \<not> P c) cs"
  by (induction cs) simp_all

lemma list_all_dropWhile: "list_all P cs \<Longrightarrow> list_all P (dropWhile Q cs)"
  by (induction cs) simp_all

lemma IsNumber_loop_char:
  assumes "foundExponentSign \<longrightarrow> foundExponent"
  shows "IsNumber_loop foundExponentSign foundExponent foundDec cs \<longleftrightarrow>
     list_all number_char cs \<and>
     length (filter (\<lambda>c. c = CHR ''.'') cs) \<le> (if foundDec \<or> foundExponent then 0 else 1) \<and>
     length (filter is_exp cs) \<le> (if foundExponent then 0 else 1) \<and>
     length (filter is_sign cs) \<le> (if foundExponentSign then 0 else 1) \<and>
     (\<not> foundExponent \<longrightarrow> list_all (\<lambda>c. \<not> is_sign c) (takeWhile (\<lambda>c. \<not> is_exp c) cs)) \<and>
     list_all (\<lambda>c. c \<noteq> CHR ''.'') (dropWhile (\<lambda>c. \<not> is_exp c) cs)"
  using assms
proof (induction cs arbitrary: foundExponentSign foundExponent foundDec)
  case Nil
  then show ?case by simp
next
  case (Cons c cs)
  consider (digit) "is_digit c" | (dot) "c = CHR ''.''" | (exp) "is_exp c" | (sign) "is_sign c"
    | (other) "\<not> number_char c"
    by (auto simp: number_char_def)
  then show ?case
  proof cases
    case digit
    with Cons show ?thesis
      using char_classes_disjoint(1)[OF digit] by (simp add: number_char_def)
  next
    case dot
    then have nd: "\<not> is_digit c" "\<not> is_exp c" "\<not> is_sign c"
      by (auto simp: is_digit_def is_sign_def is_exp_def)
    show ?thesis
      using Cons.IH[of foundExponentSign foundExponent True] Cons.prems dot nd
      by (auto simp: number_char_def)
  next
    case exp
    then have nd: "\<not> is_digit c" "c \<noteq> CHR ''.''" "\<not> is_sign c"
      by (auto simp: is_digit_def is_sign_def is_exp_def)
    show ?thesis
    proof (cases foundExponent)
      case True
      with exp nd show ?thesis by simp
    next
      case False
      with Cons.prems have fes: "\<not> foundExponentSign" by simp
      have step: "IsNumber_loop foundExponentSign foundExponent foundDec (c # cs) =
          IsNumber_loop False True foundDec cs"
        using exp nd False fes by simp
      have dots: "length (filter (\<lambda>c. c = CHR ''.'') cs) \<le> 0 \<longleftrightarrow>
          list_all (\<lambda>c. c \<noteq> CHR ''.'') cs"
        using count_zero_iff[of "\<lambda>c. c = CHR ''.''" cs] by simp
      have nc: "number_char c" using exp by (simp add: number_char_def)
      show ?thesis
        unfolding step Cons.IH[of False True foundDec, simplified] 
        using exp nd False fes nc dots list_all_dropWhile[of "\<lambda>c. c \<noteq> CHR ''.''" cs "\<lambda>c. \<not> is_exp c"]
        by (cases "list_all (\<lambda>c. c \<noteq> CHR ''.'') cs") (simp_all add: count_zero_iff)
    qed
  next
    case sign
    then have nd: "\<not> is_digit c" "c \<noteq> CHR ''.''" "\<not> is_exp c"
      by (auto simp: is_digit_def is_sign_def is_exp_def)
    show ?thesis
      using Cons.IH[of True foundExponent foundDec] Cons.prems sign nd
      by (auto simp: number_char_def)
  next
    case other
    then show ?thesis
      by (auto simp: number_char_def)
  qed
qed

text \<open>
  Claim C9, as stated, fails: in \<^verbatim>\<open>1e5-3\<close> the sign does not follow the exponent
  marker immediately, and the source accepts the token.
\<close>

theorem IsNumber_late_sign_counterexample:
  "\<not> (IsNumber ''1e5-3'' \<longleftrightarrow> IsNumber_spec ''1e5-3'')"
  by (simp add: IsNumber_def IsNumber_spec_def number_body_def number_char_def is_digit_def
      is_sign_def is_exp_def)

text \<open>
  Claim C9, amended. \<open>IsNumber\<close> accepts a token exactly when, after an optional
  leading sign, it consists of digits, at most one decimal point standing before the
  exponent marker, at most one exponent marker, and at most one further sign standing
  anywhere after the exponent marker.
\<close>

theorem IsNumber_accepts_exactly:
  "IsNumber token \<longleftrightarrow> IsNumber_amended token"
proof (cases token)
  case Nil
  then show ?thesis
    by (simp add: IsNumber_def IsNumber_amended_def number_body_def)
next
  case (Cons c cs)
  show ?thesis
    unfolding IsNumber_def IsNumber_amended_def number_body_def Cons
    using IsNumber_loop_char[of False False False cs] IsNumber_loop_char[of False False False "c # cs"]
    by (simp add: Let_def del: IsNumber_loop.simps)
qed

text \<open>
  The theorem at \<^verbatim>\<open>-1.5e+3\<close>.
\<close>

theorem IsNumber_accepts_exactly_witness:
  "IsNumber_amended ''-1.5e+3'' \<and> IsNumber ''-1.5e+3''"
proof -
  have a: "IsNumber_amended ''-1.5e+3''"
    by (simp add: IsNumber_amended_def number_body_def number_char_def is_digit_def is_sign_def
        is_exp_def)
  from a IsNumber_accepts_exactly[of "''-1.5e+3''"] show ?thesis by blast
qed

section \<open>Properties of the reader\<close>

subsection \<open>\<^verbatim>\<open>readLine\<close> reads one line\<close>

lemma first_line_simps [simp]:
  "first_line [] = []"
  "first_line (c # cs) = (if c = NL then [] else c # first_line cs)"
  by (simp_all add: first_line_def)

lemma after_line_simps [simp]:
  "after_line [] = []"
  "after_line (c # cs) = (if c = NL then cs else after_line cs)"
  by (simp_all add: after_line_def)

lemma NL_notin_first_line [simp]: "NL \<notin> set (first_line s)"
  by (induction s) simp_all

lemma take_line_cases:
  "(take_line n s = first_line s @ [NL] \<and> length (first_line s) < n \<and>
      drop (Suc (length (first_line s))) s = after_line s) \<or>
   (NL \<notin> set (take_line n s) \<and> take_line n s = take n s \<and>
      first_line s = take_line n s @ first_line (drop (length (take_line n s)) s) \<and>
      after_line (drop (length (take_line n s)) s) = after_line s \<and>
      (length (take_line n s) = n \<or> take_line n s = s))"
proof (induction s arbitrary: n)
  case Nil
  then show ?case by simp
next
  case (Cons c cs)
  show ?case
  proof (cases "n = 0")
    case True
    then show ?thesis by simp
  next
    case False
    then obtain n' where n: "n = Suc n'" by (cases n) auto
    show ?thesis
    proof (cases "c = NL")
      case True
      then show ?thesis using n by simp
    next
      case False
      from Cons.IH[of n'] show ?thesis
        using False n by auto
    qed
  qed
qed

lemma take_line_length: "length (take_line n s) \<le> n"
proof (induction s arbitrary: n)
  case Nil
  then show ?case by simp
next
  case (Cons c cs)
  from Cons[of "n - 1"] show ?case
    by (cases n) auto
qed

lemma c_str_prefix:
  "NUL \<notin> set acc \<Longrightarrow> c_str (acc @ NUL # tail) 0 = acc"
  by (induction acc) (auto simp: c_str_def)

lemma string_at_prefix:
  "NUL \<notin> set acc \<Longrightarrow> string_at (acc @ NUL # tail) 0 acc"
  by (simp add: string_at_def)

lemma string_at_c_str:
  assumes "string_at b p s"
  shows "c_str b p = s"
proof -
  from assms obtain tail where "drop p b = s @ NUL # tail" "NUL \<notin> set s"
    by (auto simp: string_at_def)
  then show ?thesis
    using c_str_prefix[of s tail] by (simp add: c_str_def)
qed

lemma newline_behind_chunk:
  assumes "NL \<in> set s" and "NL \<notin> set (take n s)"
  shows "NL \<in> set (drop (length (take n s)) s)"
proof -
  have "set s = set (take n s) \<union> set (drop n s)"
    by (metis append_take_drop_id set_append)
  with assms have in_drop: "NL \<in> set (drop n s)" by simp
  then have "drop n s \<noteq> []" by auto
  then have "n < length s" by simp
  then have "length (take n s) = n" by simp
  with in_drop show ?thesis by simp
qed

text \<open>
  The loop doubles a buffer of \<open>L\<close> bytes only if \<open>L\<close> is the length at entry or at most
  twice the length of the line plus one; under the bounds of the lemma no doubling
  overflows.
\<close>

lemma readLine_grow_line:
  assumes allocs: "\<forall>n. malloc_ok env n"
    and b: "buf r = acc @ NUL # tail" and nul: "NUL \<notin> set acc"
    and state: "(acc \<noteq> [] \<and> last acc = NL \<and> NL \<notin> set (butlast acc)) \<or>
                (NL \<notin> set acc \<and> (tail = [] \<or> fp r = []) \<and> NUL \<notin> set (first_line (fp r)))"
    and bound: "NL \<in> set acc \<or>
                (2 * length (buf r) \<le> INT_MAX \<and>
                 4 * (length acc + length (first_line (fp r)) + 1) \<le> INT_MAX)"
  shows "\<exists>r'. readLine_grow env r = (0, r') \<and>
           string_at (buf r') 0 (if NL \<in> set acc then butlast acc else acc @ first_line (fp r)) \<and>
           fp r' = (if NL \<in> set acc then fp r else after_line (fp r)) \<and>
           messages r' = messages r \<and> length (buf r) \<le> length (buf r') \<and>
           (NL \<in> set acc \<longrightarrow> length (buf r') = length (buf r)) \<and>
           (NL \<notin> set acc \<and> NL \<in> set (fp r) \<longrightarrow>
              length (buf r') \<le> 2 * (length acc + length (first_line (fp r)) + 1))"
  using b nul state bound
proof (induction "length (fp r)" arbitrary: r acc tail rule: less_induct)
  case less
  note b = less.prems(1) and nul = less.prems(2) and state = less.prems(3)
    and bound = less.prems(4)
  have cs: "c_str (buf r) 0 = acc"
    using b nul by (simp add: c_str_prefix)
  show ?case
  proof (cases "NL \<in> set acc")
    case True
    with state have acc: "acc \<noteq> []" "last acc = NL" "NL \<notin> set (butlast acc)"
      by auto
    define pre where "pre = butlast acc"
    have acc_eq: "acc = pre @ [NL]"
      using acc(1,2) unfolding pre_def by (metis append_butlast_last_id)
    have pre1: "NL \<notin> set pre"
      using acc(3) by (simp add: pre_def)
    have "NUL \<notin> set (pre @ [NL])"
      using nul acc_eq by metis
    then have pre2: "NUL \<notin> set pre"
      by simp
    have tw: "takeWhile (\<lambda>d. d \<noteq> NL) (pre @ [NL]) = pre"
      using pre1 by (induction pre) auto
    have "c_str (buf r) 0 = pre @ [NL]"
      using cs acc_eq by simp
    then have sc: "strchr (buf r) NL = Some (length pre)"
      by (simp add: strchr_def tw)
    have upd: "(buf r)[length pre := NUL] = pre @ NUL # NUL # tail"
      unfolding b acc_eq by (simp add: list_update_append)
    have "string_at ((buf r)[length pre := NUL]) 0 pre"
      unfolding upd using pre2 by (rule string_at_prefix)
    then show ?thesis
      using True sc by (subst readLine_grow.simps) (simp add: pre_def)
  next
    case False
    have "\<not> (acc \<noteq> [] \<and> last acc = NL)"
      using False last_in_set by metis
    with state have st: "tail = [] \<or> fp r = []" "NUL \<notin> set (first_line (fp r))"
      by auto
    have sc: "strchr (buf r) NL = None"
      using False cs by (simp add: strchr_def)
    from bound False have fits: "2 * length (buf r) \<le> INT_MAX"
      and line_fits: "4 * (length acc + length (first_line (fp r)) + 1) \<le> INT_MAX"
      by simp_all
    have no_overflow: "\<not> INT_MAX < 2 * length (buf r)"
      using fits by simp
    define L where "L = length (buf r)"
    define junk where "junk = map (uninit env) [L..<2 * L]"
    define b1 where "b1 = buf r @ junk"
    have junk_len: "length junk = L" by (simp add: junk_def)
    have unfold: "readLine_grow env r =
        (case fgets b1 (L - 1) (L + 1) (fp r) of
           None \<Rightarrow> (0, r\<lparr>buf := b1\<rparr>)
         | Some (b', rest) \<Rightarrow> readLine_grow env (r\<lparr>buf := b', fp := rest\<rparr>))"
      unfolding b1_def junk_def L_def
      using sc allocs no_overflow by (subst readLine_grow.simps) (simp add: Let_def)
    have len1: "length (buf r) \<le> length b1" by (simp add: b1_def)
    show ?thesis
    proof (cases "fp r = []")
      case True
      then have "fgets b1 (L - 1) (L + 1) (fp r) = None"
        by (simp add: fgets_def)
      moreover have "string_at b1 0 acc"
        using b nul string_at_prefix[of acc "tail @ junk"] by (simp add: b1_def)
      ultimately show ?thesis
        using unfold True False len1 by simp
    next
      case nonempty: False
      with st have tail: "tail = []" by simp
      then have L: "L = Suc (length acc)" using b by (simp add: L_def)
      define chunk where "chunk = take_line L (fp r)"
      define rest where "rest = drop (length chunk) (fp r)"
      have chunk_ne: "chunk \<noteq> []"
        using nonempty L by (cases "fp r") (auto simp: chunk_def)
      define b2 where "b2 = store b1 (length acc) (chunk @ [NUL])"
      have fg: "fgets b1 (L - 1) (L + 1) (fp r) = Some (b2, rest)"
        using chunk_ne by (simp add: fgets_def L b2_def rest_def chunk_def Let_def)
      note tl = take_line_cases[of L "fp r", folded chunk_def, folded rest_def]
      have chunk_le: "length chunk \<le> L"
        by (simp add: chunk_def take_line_length)
      have b2_eq: "b2 = (acc @ chunk) @ NUL # drop (length chunk) junk"
        using b tail by (simp add: store_def b2_def b1_def)
      have smaller: "length rest < length (fp r)"
        using chunk_ne nonempty by (cases "fp r") (auto simp: rest_def)
      define r1 where "r1 = r\<lparr>buf := b2, fp := rest\<rparr>"
      have r1: "buf r1 = (acc @ chunk) @ NUL # drop (length chunk) junk" "fp r1 = rest"
        "messages r1 = messages r"
        by (simp_all add: r1_def b2_eq)
      have step: "readLine_grow env r = readLine_grow env r1"
        using unfold fg by (simp add: r1_def)
      have len_r1: "length (buf r1) = 2 * L"
        using chunk_le junk_len by (simp add: r1(1) L)
      have len2: "length (buf r) \<le> length (buf r1)"
        by (simp add: len_r1 L_def[symmetric])
      have nul_chunk: "NUL \<notin> set chunk"
        and state': "(acc @ chunk \<noteq> [] \<and> last (acc @ chunk) = NL \<and>
            NL \<notin> set (butlast (acc @ chunk))) \<or>
            (NL \<notin> set (acc @ chunk) \<and>
              (drop (length chunk) junk = [] \<or> fp r1 = []) \<and>
              NUL \<notin> set (first_line (fp r1)))"
        and res: "(if NL \<in> set (acc @ chunk) then butlast (acc @ chunk)
                   else (acc @ chunk) @ first_line rest) = acc @ first_line (fp r)"
          "(if NL \<in> set (acc @ chunk) then rest else after_line rest) = after_line (fp r)"
      proof -
        from tl consider
          (full) "chunk = first_line (fp r) @ [NL]" "length (first_line (fp r)) < L"
            "drop (Suc (length (first_line (fp r)))) (fp r) = after_line (fp r)"
          | (part) "NL \<notin> set chunk" "chunk = take L (fp r)"
            "first_line (fp r) = chunk @ first_line rest" "after_line rest = after_line (fp r)"
            "length chunk = L \<or> chunk = fp r"
          by blast
        then have "NUL \<notin> set chunk \<and>
          ((acc @ chunk \<noteq> [] \<and> last (acc @ chunk) = NL \<and>
            NL \<notin> set (butlast (acc @ chunk))) \<or>
            (NL \<notin> set (acc @ chunk) \<and>
              (drop (length chunk) junk = [] \<or> fp r1 = []) \<and>
              NUL \<notin> set (first_line (fp r1)))) \<and>
          (if NL \<in> set (acc @ chunk) then butlast (acc @ chunk)
                   else (acc @ chunk) @ first_line rest) = acc @ first_line (fp r) \<and>
          (if NL \<in> set (acc @ chunk) then rest else after_line rest) = after_line (fp r)"
        proof cases
          case full
          have "rest = after_line (fp r)"
            using full by (simp add: rest_def)
          moreover have "NUL \<notin> set chunk"
            using st(2) full(1) by (simp add: NUL_def NL_def)
          ultimately show ?thesis
            using full False by (simp add: butlast_append)
        next
          case part
          have "NUL \<notin> set chunk" "NUL \<notin> set (first_line rest)"
            using st(2) part(3) by auto
          moreover have "drop (length chunk) junk = [] \<or> rest = []"
            using part(5) junk_len by (auto simp: rest_def)
          ultimately show ?thesis
            using part False r1(2) by simp
        qed
        then show "NUL \<notin> set chunk"
          "(acc @ chunk \<noteq> [] \<and> last (acc @ chunk) = NL \<and>
            NL \<notin> set (butlast (acc @ chunk))) \<or>
            (NL \<notin> set (acc @ chunk) \<and>
              (drop (length chunk) junk = [] \<or> fp r1 = []) \<and>
              NUL \<notin> set (first_line (fp r1)))"
          "(if NL \<in> set (acc @ chunk) then butlast (acc @ chunk)
                   else (acc @ chunk) @ first_line rest) = acc @ first_line (fp r)"
          "(if NL \<in> set (acc @ chunk) then rest else after_line rest) = after_line (fp r)"
          by blast+
      qed
      have nul': "NUL \<notin> set (acc @ chunk)"
        using nul nul_chunk by simp
      have line_eq: "NL \<notin> set (acc @ chunk) \<Longrightarrow>
          length (acc @ chunk) + length (first_line rest) = length acc + length (first_line (fp r))"
        using res(1) by (metis append_assoc length_append)
      have bound': "NL \<in> set (acc @ chunk) \<or>
          (2 * length (buf r1) \<le> INT_MAX \<and>
           4 * (length (acc @ chunk) + length (first_line (fp r1)) + 1) \<le> INT_MAX)"
      proof (cases "NL \<in> set (acc @ chunk)")
        case nl: False
        have "2 * length (buf r1) \<le> 4 * (length acc + length (first_line (fp r)) + 1)"
          by (simp add: len_r1 L)
        then show ?thesis
          using line_fits line_eq[OF nl] r1(2) by simp
      qed simp
      from less.hyps[of r1 "acc @ chunk", OF _ r1(1) nul' state' bound'] smaller r1(2)
      obtain r2 where r2: "readLine_grow env r1 = (0, r2)"
          "string_at (buf r2) 0 (if NL \<in> set (acc @ chunk) then butlast (acc @ chunk)
             else (acc @ chunk) @ first_line (fp r1))"
          "fp r2 = (if NL \<in> set (acc @ chunk) then fp r1 else after_line (fp r1))"
          "messages r2 = messages r1" "length (buf r1) \<le> length (buf r2)"
          "NL \<in> set (acc @ chunk) \<longrightarrow> length (buf r2) = length (buf r1)"
          "NL \<notin> set (acc @ chunk) \<and> NL \<in> set (fp r1) \<longrightarrow>
             length (buf r2) \<le> 2 * (length (acc @ chunk) + length (first_line (fp r1)) + 1)"
        by auto
      have c1: "string_at (buf r2) 0 (acc @ first_line (fp r))"
        using r2(2) unfolding r1(2) res(1) .
      have c2: "fp r2 = after_line (fp r)"
        using r2(3) res(2) unfolding r1(2) by (rule trans)
      have c3: "length (buf r2) \<le> 2 * (length acc + length (first_line (fp r)) + 1)"
        if nl: "NL \<in> set (fp r)"
      proof (cases "NL \<in> set (acc @ chunk)")
        case True
        with r2(6) have "length (buf r2) = length (buf r1)" by blast
        then show ?thesis by (simp add: len_r1 L)
      next
        case nl': False
        then have "NL \<notin> set (take L (fp r))"
          using tl by auto
        from newline_behind_chunk[OF nl this] have "NL \<in> set (fp r1)"
          using tl nl' by (auto simp: r1(2) rest_def)
        with r2(7) nl' line_eq[OF nl'] show ?thesis
          by (simp add: r1(2))
      qed
      show ?thesis
        using step r2(1,4,5) c1 c2 c3 r1(3) len2 False by simp
    qed
  qed
qed


lemma readLine_line:
  assumes allocs: "\<forall>n. malloc_ok env n"
    and ne: "fp r \<noteq> []" and nul: "NUL \<notin> set (first_line (fp r))"
    and len: "2 \<le> length (buf r)"
    and fits: "2 * length (buf r) \<le> INT_MAX"
    and line_fits: "4 * (length (first_line (fp r)) + 1) \<le> INT_MAX"
  shows "\<exists>r'. readLine env r = (0, r') \<and> string_at (buf r') 0 (first_line (fp r)) \<and>
           fp r' = after_line (fp r) \<and> messages r' = messages r \<and>
           length (buf r) \<le> length (buf r') \<and>
           (NL \<in> set (fp r) \<longrightarrow>
              length (buf r') \<le> max (length (buf r)) (2 * (length (first_line (fp r)) + 1)))"
proof -
  define L where "L = length (buf r)"
  define chunk where "chunk = take_line (L - 1) (fp r)"
  define rest where "rest = drop (length chunk) (fp r)"
  define tail where "tail = drop (Suc (length chunk)) (buf r)"
  have chunk_ne: "chunk \<noteq> []"
    using ne len by (cases "fp r") (auto simp: chunk_def L_def)
  have chunk_le: "length chunk \<le> L - 1"
    by (simp add: chunk_def take_line_length)
  define r1 where "r1 = r\<lparr>buf := chunk @ NUL # tail, fp := rest\<rparr>"
  have fg: "fgets (buf r) 0 (length (buf r)) (fp r) = Some (chunk @ NUL # tail, rest)"
    using chunk_ne
    by (simp add: fgets_def Let_def store_def chunk_def rest_def tail_def L_def)
  have step: "readLine env r = readLine_grow env r1"
    using fg by (simp add: readLine_def r1_def)
  have r1: "buf r1 = chunk @ NUL # tail" "fp r1 = rest" "messages r1 = messages r"
    by (simp_all add: r1_def)
  note tl = take_line_cases[of "L - 1" "fp r", folded chunk_def, folded rest_def]
  from tl consider
    (full) "chunk = first_line (fp r) @ [NL]" "length (first_line (fp r)) < L - 1"
      "drop (Suc (length (first_line (fp r)))) (fp r) = after_line (fp r)"
    | (part) "NL \<notin> set chunk" "chunk = take (L - 1) (fp r)"
      "first_line (fp r) = chunk @ first_line rest" "after_line rest = after_line (fp r)"
      "length chunk = L - 1 \<or> chunk = fp r"
    by blast
  then have facts: "NUL \<notin> set chunk \<and>
      ((chunk \<noteq> [] \<and> last chunk = NL \<and> NL \<notin> set (butlast chunk)) \<or>
       (NL \<notin> set chunk \<and> (tail = [] \<or> fp r1 = []) \<and> NUL \<notin> set (first_line (fp r1)))) \<and>
      (if NL \<in> set chunk then butlast chunk else chunk @ first_line rest) = first_line (fp r) \<and>
      (if NL \<in> set chunk then rest else after_line rest) = after_line (fp r)"
  proof cases
    case full
    have "rest = after_line (fp r)"
      using full by (simp add: rest_def)
    moreover have "NUL \<notin> set chunk"
      using nul full(1) by (simp add: NUL_def NL_def)
    ultimately show ?thesis
      using full by simp
  next
    case part
    have "NUL \<notin> set chunk" "NUL \<notin> set (first_line rest)"
      using nul part(3) by auto
    moreover have "tail = [] \<or> rest = []"
      using part(5) by (auto simp: rest_def tail_def L_def)
    ultimately show ?thesis
      using part r1(2) by simp
  qed
  from facts have nul': "NUL \<notin> set chunk"
    and state: "(chunk \<noteq> [] \<and> last chunk = NL \<and> NL \<notin> set (butlast chunk)) \<or>
       (NL \<notin> set chunk \<and> (tail = [] \<or> fp r1 = []) \<and> NUL \<notin> set (first_line (fp r1)))"
    and res: "(if NL \<in> set chunk then butlast chunk else chunk @ first_line rest) = first_line (fp r)"
      "(if NL \<in> set chunk then rest else after_line rest) = after_line (fp r)"
    by blast+
  have len_r1: "length (buf r1) = length (buf r)"
    using chunk_le len by (simp add: r1(1) tail_def L_def)
  have line_eq: "NL \<notin> set chunk \<Longrightarrow>
      length chunk + length (first_line rest) = length (first_line (fp r))"
    using res(1) by (metis length_append)
  have bound: "NL \<in> set chunk \<or>
      (2 * length (buf r1) \<le> INT_MAX \<and>
       4 * (length chunk + length (first_line (fp r1)) + 1) \<le> INT_MAX)"
  proof (cases "NL \<in> set chunk")
    case nl: False
    from line_eq[OF nl] line_fits
    have "4 * (length chunk + length (first_line (fp r1)) + 1) \<le> INT_MAX"
      unfolding r1(2) by simp
    then show ?thesis
      using fits by (simp add: len_r1)
  qed simp
  from readLine_grow_line[OF allocs r1(1) nul' state bound]
  obtain r2 where r2: "readLine_grow env r1 = (0, r2)"
      "string_at (buf r2) 0 (if NL \<in> set chunk then butlast chunk else chunk @ first_line (fp r1))"
      "fp r2 = (if NL \<in> set chunk then fp r1 else after_line (fp r1))"
      "messages r2 = messages r1" "length (buf r1) \<le> length (buf r2)"
      "NL \<in> set chunk \<longrightarrow> length (buf r2) = length (buf r1)"
      "NL \<notin> set chunk \<and> NL \<in> set (fp r1) \<longrightarrow>
         length (buf r2) \<le> 2 * (length chunk + length (first_line (fp r1)) + 1)"
    by blast
  have c1: "string_at (buf r2) 0 (first_line (fp r))"
    using r2(2) unfolding r1(2) res(1) .
  have c2: "fp r2 = after_line (fp r)"
    using r2(3) res(2) unfolding r1(2) by (rule trans)
  have c3: "length (buf r2) \<le> max (length (buf r)) (2 * (length (first_line (fp r)) + 1))"
    if nl: "NL \<in> set (fp r)"
  proof (cases "NL \<in> set chunk")
    case True
    with r2(6) show ?thesis by (simp add: len_r1)
  next
    case nl': False
    then have "NL \<notin> set (take (L - 1) (fp r))"
      using tl by auto
    from newline_behind_chunk[OF nl this] have "NL \<in> set (fp r1)"
      using tl nl' by (auto simp: r1(2) rest_def)
    with r2(7) nl' line_eq[OF nl'] show ?thesis
      by (simp add: r1(2))
  qed
  show ?thesis
    using step r2(1,4,5) c1 c2 c3 r1(3) len_r1 by simp
qed

subsection \<open>\<^verbatim>\<open>readLine\<close> behind a NUL byte\<close>

text \<open>
  \<^verbatim>\<open>strchr\<close> looks for the newline in the C string at the start of the buffer. When the
  first byte of the line is NUL it never finds one: every further line of the stream
  doubles the buffer, and the 25th doubling of the 64 bytes overflows.
\<close>

lemma readLine_grow_overflow:
  assumes "\<forall>n. malloc_ok env n"
    and "buf r = NUL # tail" and "length (buf r) = 64 * 2 ^ k" and "k \<le> 24"
    and "fp r = concat (replicate (24 - k) [NUL, NL]) @ rest"
  shows "\<exists>r'. readLine_grow env r = (1, r') \<and>
           messages r' = messages r @ [ModelicaError MemoryAllocationError]"
  using assms(2-5)
proof (induction "24 - k" arbitrary: k r tail)
  case 0
  then have k: "k = 24" by simp
  have sc: "strchr (buf r) NL = None"
    using "0.prems"(1) by (simp add: strchr_def c_str_def)
  have "INT_MAX < 2 * length (buf r)"
    unfolding "0.prems"(2) k by (simp add: INT_MAX_def)
  then show ?case
    using sc by (subst readLine_grow.simps) (simp add: Let_def)
next
  case (Suc n)
  then have k: "k < 24" "24 - Suc k = n" by simp_all
  define L where "L = length (buf r)"
  have L: "L = 64 * 2 ^ k" by (simp add: L_def Suc.prems(2))
  have "(2::nat) ^ k \<le> 2 ^ 23"
    using k(1) by (intro power_increasing) simp_all
  then have small: "2 * L \<le> 1073741824"
    unfolding L by simp
  then have no_overflow: "\<not> INT_MAX < 2 * L"
    by (simp add: INT_MAX_def)
  have L2: "2 \<le> L"
    unfolding L by (simp add: trans_le_add1)
  have sc: "strchr (buf r) NL = None"
    using Suc.prems(1) by (simp add: strchr_def c_str_def)
  define junk where "junk = map (uninit env) [L..<2 * L]"
  define more where "more = concat (replicate n [NUL, NL]) @ rest"
  have stream: "fp r = NUL # NL # more"
    unfolding Suc.prems(4) more_def Suc.hyps(2)[symmetric] by simp
  obtain L' where L': "L = Suc (Suc L')"
    using L2 by (metis Suc_le_D numeral_2_eq_2 Suc_le_mono)
  have chunk: "take_line L (NUL # NL # more) = [NUL, NL]"
    by (simp add: L' NUL_def NL_def)
  define b2 where "b2 = store (buf r @ junk) (L - 1) [NUL, NL, NUL]"
  have fg: "fgets (buf r @ junk) (L - 1) (L + 1) (fp r) = Some (b2, more)"
    unfolding stream by (simp add: fgets_def chunk b2_def del: take_line.simps)
  have b2_hd: "b2 = NUL # take L' (tail @ junk) @ [NUL, NL, NUL] @ drop (L + 2) (buf r @ junk)"
    unfolding b2_def store_def Suc.prems(1) by (simp add: L')
  have "length (buf r @ junk) = 2 * L"
    by (simp add: junk_def L_def)
  then have b2_len: "length b2 = 2 * L"
    unfolding b2_def store_def using L2 by simp
  define r1 where "r1 = r\<lparr>buf := b2, fp := more\<rparr>"
  have step: "readLine_grow env r = readLine_grow env r1"
    using sc no_overflow assms(1) fg
    by (subst readLine_grow.simps) (simp add: Let_def L_def[symmetric] junk_def[symmetric] r1_def)
  have "\<exists>r'. readLine_grow env r1 = (1, r') \<and>
           messages r' = messages r1 @ [ModelicaError MemoryAllocationError]"
  proof (rule Suc.hyps(1))
    show "n = 24 - Suc k" using k(2) by simp
    show "buf r1 = NUL # take L' (tail @ junk) @ [NUL, NL, NUL] @ drop (L + 2) (buf r @ junk)"
      by (simp add: r1_def b2_hd)
    show "length (buf r1) = 64 * 2 ^ Suc k"
      by (simp add: r1_def b2_len L)
    show "Suc k \<le> 24" using k(1) by simp
    show "fp r1 = concat (replicate (24 - Suc k) [NUL, NL]) @ rest"
      unfolding k(2) by (simp add: r1_def more_def)
  qed
  then show ?case
    unfolding step by (simp add: r1_def)
qed

subsection \<open>The file header\<close>

lemma render_header_inj:
  assumes "render (HeaderExpected fileName found) = render (HeaderExpected fileName found')"
  shows "found = found'"
proof -
  let ?tail = "\<lambda>f. (if f = [] then ''.'' else '', but '' @ quoted f @ '' found.'') @ [NL]"
  from assms have eq: "?tail found = ?tail found'"
    by simp
  show ?thesis
  proof (cases "found = []")
    case True
    with eq show ?thesis by (cases "found' = []") simp_all
  next
    case False
    with eq have f': "found' \<noteq> []" by (cases "found' = []") simp_all
    with eq False have "found @ [DQUOTE] @ '' found.'' @ [NL] = found' @ [DQUOTE] @ '' found.'' @ [NL]"
      by (simp add: quoted_def)
    then show ?thesis by simp
  qed
qed

text \<open>
  Claim C6, as stated, fails. Each of the 26 lines of the file holds one NUL byte. The
  first line does not begin with \<^verbatim>\<open>#1\<close>, but no header error is reported: \<^verbatim>\<open>readLine\<close> does
  not see the newline behind the NUL byte, reads on and doubles the buffer with every
  further line, until the length overflows and the call ends with the memory allocation
  error.
\<close>

theorem header_not_reported_counterexample:
  "take 2 (first_line (concat (replicate 26 [NUL, NL]))) \<noteq> ''#1'' \<and>
   readTxtTable sample_env (Some (concat (replicate 26 [NUL, NL]))) ''t'' ''table.txt'' 0 0 =
     Inr \<lparr>returned = None, m_out = 0, n_out = 0,
          reported = [ModelicaError MemoryAllocationError]\<rparr>"
proof
  have content: "concat (replicate 26 [NUL, NL]) =
      NUL # NL # concat (replicate (24 - 0) [NUL, NL]) @ [NUL, NL]"
    by (simp add: eval_nat_numeral)
  show "take 2 (first_line (concat (replicate 26 [NUL, NL]))) \<noteq> ''#1''"
    unfolding content by (simp add: NUL_def NL_def)
  define tail where "tail = NL # NUL # drop 3 (map (uninit sample_env) [0..<LINE_BUFFER_LENGTH])"
  define r1 where "r1 = \<lparr>buf = NUL # tail,
      fp = concat (replicate (24 - 0) [NUL, NL]) @ [NUL, NL], messages = []\<rparr>"
  have allocs: "\<forall>n. malloc_ok sample_env n"
    by (simp add: sample_env_def)
  have "take_line 63 (NUL # NL # concat (replicate (24 - 0) [NUL, NL]) @ [NUL, NL]) = [NUL, NL]"
    by (simp add: NUL_def NL_def)
  then have first: "readLine sample_env
      \<lparr>buf = map (uninit sample_env) [0..<LINE_BUFFER_LENGTH],
       fp = concat (replicate 26 [NUL, NL]), messages = []\<rparr> = readLine_grow sample_env r1"
    unfolding content
    by (simp add: readLine_def fgets_def store_def LINE_BUFFER_LENGTH_def r1_def tail_def Let_def
        numeral_3_eq_3 del: take_line.simps)
  have "\<exists>r'. readLine_grow sample_env r1 = (1, r') \<and>
      messages r' = messages r1 @ [ModelicaError MemoryAllocationError]"
  proof (rule readLine_grow_overflow[OF allocs])
    show "buf r1 = NUL # tail" by (simp add: r1_def)
    show "length (buf r1) = 64 * 2 ^ 0"
      by (simp add: r1_def tail_def LINE_BUFFER_LENGTH_def)
    show "(0::nat) \<le> 24" by simp
    show "fp r1 = concat (replicate (24 - 0) [NUL, NL]) @ [NUL, NL]"
      by (simp add: r1_def)
  qed
  then obtain r' where r': "readLine_grow sample_env r1 = (1, r')"
    "messages r' = [ModelicaError MemoryAllocationError]"
    by (auto simp: r1_def)
  show "readTxtTable sample_env (Some (concat (replicate 26 [NUL, NL]))) ''t'' ''table.txt'' 0 0 =
     Inr \<lparr>returned = None, m_out = 0, n_out = 0,
          reported = [ModelicaError MemoryAllocationError]\<rparr>"
    using allocs by (simp add: readTxtTable_def first r')
qed

text \<open>
  Claim C6, amended. If the first line of the file is free of NUL bytes, shorter than
  \<open>2^29 - 1\<close> bytes (so that no doubling of the line buffer overflows) and does not begin
  with \<^verbatim>\<open>#1\<close>, and every allocation succeeds, the call fails with the one message
  \<open>HeaderExpected\<close> that carries the first two characters of that line: none for an empty
  line, one for a line of one character. The text of the message shows them between
  quotes, and different characters give different messages.
\<close>

theorem header_rejected_short_line:
  assumes "\<forall>n. malloc_ok env n"
    and "content \<noteq> []" and "NUL \<notin> set (first_line content)"
    and "length (first_line content) < 2 ^ 29 - 1"
    and "take 2 (first_line content) \<noteq> ''#1''"
  shows "readTxtTable env (Some content) tableName fileName m0 n0 =
      Inr \<lparr>returned = None, m_out = m0, n_out = n0,
           reported = [ModelicaError (HeaderExpected fileName (take 2 (first_line content)))]\<rparr> \<and>
    render (HeaderExpected fileName (take 2 (first_line content))) =
      ''Error reading format and version information in first line of file '' @ quoted fileName @
      '': '' @ quoted ''#1'' @ '' expected'' @
      (if first_line content = [] then ''.''
       else '', but '' @ quoted (take 2 (first_line content)) @ '' found.'') @ [NL] \<and>
    (\<forall>found. found \<noteq> take 2 (first_line content) \<longrightarrow>
       render (HeaderExpected fileName found) \<noteq>
       render (HeaderExpected fileName (take 2 (first_line content))))"
proof (intro conjI allI impI)
  let ?r = "\<lparr>buf = map (uninit env) [0..<LINE_BUFFER_LENGTH], fp = content, messages = []\<rparr>"
  have "\<exists>r'. readLine env ?r = (0, r') \<and> string_at (buf r') 0 (first_line (fp ?r)) \<and>
      fp r' = after_line (fp ?r) \<and> messages r' = messages ?r \<and> length (buf ?r) \<le> length (buf r') \<and>
      (NL \<in> set (fp ?r) \<longrightarrow>
         length (buf r') \<le> max (length (buf ?r)) (2 * (length (first_line (fp ?r)) + 1)))"
    using assms(1-4) by (intro readLine_line) (simp_all add: LINE_BUFFER_LENGTH_def INT_MAX_def)
  then obtain r' where r': "readLine env ?r = (0, r')" "c_str (buf r') 0 = first_line content"
    "messages r' = []"
    by (auto dest: string_at_c_str)
  show "readTxtTable env (Some content) tableName fileName m0 n0 =
      Inr \<lparr>returned = None, m_out = m0, n_out = n0,
           reported = [ModelicaError (HeaderExpected fileName (take 2 (first_line content)))]\<rparr>"
    using assms(1,5) r' by (simp add: readTxtTable_def)
next
  show "render (HeaderExpected fileName (take 2 (first_line content))) =
      ''Error reading format and version information in first line of file '' @ quoted fileName @
      '': '' @ quoted ''#1'' @ '' expected'' @
      (if first_line content = [] then ''.''
       else '', but '' @ quoted (take 2 (first_line content)) @ '' found.'') @ [NL]"
    by simp
next
  fix found
  assume "found \<noteq> take 2 (first_line content)"
  then show "render (HeaderExpected fileName found) \<noteq>
       render (HeaderExpected fileName (take 2 (first_line content)))"
    using render_header_inj by blast
qed

text \<open>
  The theorem at the first lines \<^verbatim>\<open>#2\<close>, \<^verbatim>\<open>X\<close> and the empty line: three messages, with
  two, one and no character.
\<close>

theorem header_rejected_short_line_witness:
  "readTxtTable sample_env (Some (file_of_lines [''#2'', ''double t(1,1)'', ''5'']))
      ''t'' ''table.txt'' 0 0 =
     Inr \<lparr>returned = None, m_out = 0, n_out = 0,
          reported = [ModelicaError (HeaderExpected ''table.txt'' ''#2'')]\<rparr> \<and>
   readTxtTable sample_env (Some (file_of_lines [''X'', ''double t(1,1)'', ''5'']))
      ''t'' ''table.txt'' 0 0 =
     Inr \<lparr>returned = None, m_out = 0, n_out = 0,
          reported = [ModelicaError (HeaderExpected ''table.txt'' ''X'')]\<rparr> \<and>
   readTxtTable sample_env (Some (file_of_lines [[], ''double t(1,1)'', ''5'']))
      ''t'' ''table.txt'' 0 0 =
     Inr \<lparr>returned = None, m_out = 0, n_out = 0,
          reported = [ModelicaError (HeaderExpected ''table.txt'' [])]\<rparr> \<and>
   render (HeaderExpected ''table.txt'' ''X'') \<noteq> render (HeaderExpected ''table.txt'' ''#2'') \<and>
   render (HeaderExpected ''table.txt'' []) \<noteq> render (HeaderExpected ''table.txt'' ''#2'') \<and>
   render (HeaderExpected ''table.txt'' []) \<noteq> render (HeaderExpected ''table.txt'' ''X'')"
proof -
  have a: "\<forall>n. malloc_ok sample_env n"
    by (simp add: sample_env_def)
  note h = header_rejected_short_line[OF a, of _ "''t''" "''table.txt''" 0 0]
  have 1: "take 2 (first_line (file_of_lines [''#2'', ''double t(1,1)'', ''5''])) = ''#2''"
    and 2: "take 2 (first_line (file_of_lines [''X'', ''double t(1,1)'', ''5''])) = ''X''"
    and 3: "take 2 (first_line (file_of_lines [[], ''double t(1,1)'', ''5''])) = []"
    by (simp_all add: file_of_lines_def NL_def)
  have n1: "NUL \<notin> set (first_line (file_of_lines [''#2'', ''double t(1,1)'', ''5'']))"
    and n2: "NUL \<notin> set (first_line (file_of_lines [''X'', ''double t(1,1)'', ''5'']))"
    and n3: "NUL \<notin> set (first_line (file_of_lines [[], ''double t(1,1)'', ''5'']))"
    by (simp_all add: file_of_lines_def NL_def NUL_def)
  have l1: "length (first_line (file_of_lines [''#2'', ''double t(1,1)'', ''5''])) < 2 ^ 29 - 1"
    and l2: "length (first_line (file_of_lines [''X'', ''double t(1,1)'', ''5''])) < 2 ^ 29 - 1"
    and l3: "length (first_line (file_of_lines [[], ''double t(1,1)'', ''5''])) < 2 ^ 29 - 1"
    by (simp_all add: file_of_lines_def NL_def)
  have e1: "file_of_lines [''#2'', ''double t(1,1)'', ''5''] \<noteq> []"
    and e2: "file_of_lines [''X'', ''double t(1,1)'', ''5''] \<noteq> []"
    and e3: "file_of_lines [[], ''double t(1,1)'', ''5''] \<noteq> []"
    by (simp_all add: file_of_lines_def)
  have p1: "take 2 (first_line (file_of_lines [''#2'', ''double t(1,1)'', ''5''])) \<noteq> ''#1''"
    and p2: "take 2 (first_line (file_of_lines [''X'', ''double t(1,1)'', ''5''])) \<noteq> ''#1''"
    and p3: "take 2 (first_line (file_of_lines [[], ''double t(1,1)'', ''5''])) \<noteq> ''#1''"
    unfolding 1 2 3 by simp_all
  note t1 = h[OF e1 n1 l1 p1, unfolded 1] and t2 = h[OF e2 n2 l2 p2, unfolded 2]
    and t3 = h[OF e3 n3 l3 p3, unfolded 3]
  note d1 = t1[THEN conjunct2, THEN conjunct2, rule_format]
    and d2 = t2[THEN conjunct2, THEN conjunct2, rule_format]
  have "render (HeaderExpected ''table.txt'' ''X'') \<noteq> render (HeaderExpected ''table.txt'' ''#2'')"
    by (rule d1) simp
  moreover have "render (HeaderExpected ''table.txt'' []) \<noteq> render (HeaderExpected ''table.txt'' ''#2'')"
    by (rule d1) simp
  moreover have "render (HeaderExpected ''table.txt'' []) \<noteq> render (HeaderExpected ''table.txt'' ''X'')"
    by (rule d2) simp
  ultimately show ?thesis
    using t1[THEN conjunct1] t2[THEN conjunct1] t3[THEN conjunct1] by blast
qed

subsection \<open>Blanks and tokens\<close>





lemma tokens_unfold:
  "tokens delim s =
     (if dropWhile (\<lambda>c. c \<in> set delim) s = [] then []
      else takeWhile (\<lambda>c. c \<notin> set delim) (dropWhile (\<lambda>c. c \<in> set delim) s) #
           tokens delim (drop 1 (dropWhile (\<lambda>c. c \<notin> set delim) (dropWhile (\<lambda>c. c \<in> set delim) s))))"
  by (subst tokens.simps) (simp add: Let_def)

lemma tokens_skip_delims:
  "tokens delim (dropWhile (\<lambda>c. c \<in> set delim) s) = tokens delim s"
  by (subst (1 2) tokens_unfold) simp







subsection \<open>One line of the table\<close>








subsection \<open>Evaluation of the reader\<close>

lemmas char_defs = NUL_def NL_def TAB_def CR_def DQUOTE_def

lemmas reader_defs =
  readTxtTable_def readLine_def readLine_grow.simps fgets_def store_def strchr_def c_str_def
  scan_lines.simps scan_header_def strtok_r_def table_block_def read_rows.simps
  read_tokens.simps lookahead.simps skip_blanks.simps finish_def
  DELIM_TABLE_HEADER_def DELIM_TABLE_NUMBER_def LINE_BUFFER_LENGTH_def EOF_def
  strtol_def isspace_def is_digit_def is_sign_def is_exp_def digit_value_def digits_value_def
  LONG_MAX_def LONG_MIN_def ulong_of_long_def ulong_inc_def size_mul_def size_add_def SIZE_MOD_def
  IsNumber_def file_of_lines_def INT_MAX_def Let_def

lemmas sample_defs = sample_env_def decimal_strtod_def

lemma sample_strtod:
  "strtod_l sample_env ''1.0'' = ((10, - 1), [])"
  "strtod_l sample_env ''2.0'' = ((20, - 1), [])"
  "strtod_l sample_env ''3.0'' = ((30, - 1), [])"
  "strtod_l sample_env ''4.0'' = ((40, - 1), [])"
  "strtod_l sample_env ''5.0'' = ((50, - 1), [])"
  "strtod_l sample_env ''6.0'' = ((60, - 1), [])"
  "strtod_l sample_env ''7.0'' = ((70, - 1), [])"
  "strtod_l sample_env ''abc'' = ((0, 0), ''abc'')"
  "strtod_l sample_env ''-1.5e+3'' = ((- 15, 2), [])"
  by (simp_all add: sample_defs isspace_def is_digit_def is_sign_def is_exp_def digit_value_def
      digits_value_def char_defs Let_def)



subsection \<open>The reader on given files\<close>

text \<open>
  Claim C2. For the file of the four lines \<^verbatim>\<open>#1\<close>, \<^verbatim>\<open>double mytable(2,3)\<close>,
  \<^verbatim>\<open>1.0 2.0 3.0\<close>, \<^verbatim>\<open>4.0 5.0 6.0\<close> the call for \<^verbatim>\<open>mytable\<close> succeeds with \<open>m = 2\<close>,
  \<open>n = 3\<close> and the six values in row-major order: in every environment in which the
  two allocations (64 bytes for the line buffer, 48 for the table) succeed and
  \<^verbatim>\<open>strtod_l\<close> converts each of the six tokens completely.
\<close>

theorem readTxtTable_mytable:
  assumes "malloc_ok env 64" "malloc_ok env 48"
    and "strtod_l env ''1.0'' = (v1, [])" "strtod_l env ''2.0'' = (v2, [])"
    and "strtod_l env ''3.0'' = (v3, [])" "strtod_l env ''4.0'' = (v4, [])"
    and "strtod_l env ''5.0'' = (v5, [])" "strtod_l env ''6.0'' = (v6, [])"
  shows "readTxtTable env
      (Some (file_of_lines [''#1'', ''double mytable(2,3)'', ''1.0 2.0 3.0'', ''4.0 5.0 6.0'']))
      ''mytable'' fileName m0 n0 =
    Inr \<lparr>returned = Some [Some v1, Some v2, Some v3, Some v4, Some v5, Some v6],
         m_out = 2, n_out = 3, reported = []\<rparr>"
  using assms by (simp add: reader_defs char_defs; simp add: eval_nat_numeral)

text \<open>The theorem in the sample environment: the values are 1.0 to 6.0.\<close>

theorem readTxtTable_mytable_witness:
  "readTxtTable sample_env
      (Some (file_of_lines [''#1'', ''double mytable(2,3)'', ''1.0 2.0 3.0'', ''4.0 5.0 6.0'']))
      ''mytable'' ''table.txt'' 0 0 =
    Inr \<lparr>returned = Some [Some (10, - 1), Some (20, - 1), Some (30, - 1),
                           Some (40, - 1), Some (50, - 1), Some (60, - 1)],
         m_out = 2, n_out = 3, reported = []\<rparr>"
proof -
  have "malloc_ok sample_env 64" "malloc_ok sample_env 48"
    by (simp_all add: sample_env_def)
  from readTxtTable_mytable[OF this sample_strtod(1-6)] show ?thesis .
qed

text \<open>
  Claim C3 fails on the source. When the requested table is not in the file, the call
  reports the error and returns \<^verbatim>\<open>NULL\<close>, but \<^verbatim>\<open>*m\<close> and \<^verbatim>\<open>*n\<close> keep the values they had
  before the call: they are not set to 0.
\<close>

theorem readTxtTable_not_found_keeps_counts:
  "readTxtTable sample_env
      (Some (file_of_lines [''#1'', ''double mytable(2,3)'', ''1.0 2.0 3.0'', ''4.0 5.0 6.0'']))
      ''other'' fileName m0 n0 =
    Inr \<lparr>returned = None, m_out = m0, n_out = n0,
         reported = [ModelicaError (TableNotFound ''other'' fileName)]\<rparr>"
  by (simp add: reader_defs char_defs sample_defs)

text \<open>
  Claim C4 fails on the source. A header with the requested name whose row count does
  not parse sets \<^verbatim>\<open>foundTable\<close> before the counts are read. At the end of the file no
  error is reported at all: the call returns \<^verbatim>\<open>NULL\<close> with \<^verbatim>\<open>*m = 2\<close> (the digits that did
  parse) and \<^verbatim>\<open>*n = 0\<close>.
\<close>

theorem readTxtTable_bad_dimension_no_error:
  "readTxtTable sample_env (Some (file_of_lines [''#1'', ''double mytable(2x,3)'']))
      ''mytable'' fileName m0 n0 =
    Inr \<lparr>returned = None, m_out = 2, n_out = 0, reported = []\<rparr>"
  by (simp add: reader_defs char_defs sample_defs)


text \<open>
  Claim C8 fails on the source. The table is complete, nothing follows on its last data
  line, and the next line begins with the number \<^verbatim>\<open>7\<close>. But the last data line is
  indented by one blank, so the look-ahead reads the buffer from index 1 on, where the
  NUL behind \<^verbatim>\<open>7\<close> stands: the line counts as empty and no warning is reported.
\<close>

theorem readTxtTable_indented_row_no_warning:
  "readTxtTable sample_env
      (Some (file_of_lines [''#1'', ''double mytable(2,3)'', ''1.0 2.0 3.0'', '' 4.0 5.0 6.0'', ''7'']))
      ''mytable'' fileName m0 n0 =
    Inr \<lparr>returned = Some [Some (10, - 1), Some (20, - 1), Some (30, - 1),
                           Some (40, - 1), Some (50, - 1), Some (60, - 1)],
         m_out = 2, n_out = 3, reported = []\<rparr>"
  by (simp add: reader_defs char_defs sample_defs; simp add: eval_nat_numeral)

subsection \<open>The end of the stream and trailing tokens\<close>









end
